theory Spec2Isabelle
  imports Complex_Main "HOL-Library.Sublist" "HOL-Library.Multiset"
begin

chapter \<open>PennyLane-Lightning: the math kernel utilities and the error helper\<close>

text \<open>
  The development embeds \<^verbatim>\<open>pennylane_lightning/src/util/Util.hpp\<close> and
  \<^verbatim>\<open>pennylane_lightning/src/util/Error.hpp\<close>.

  Conventions of the embedding.
  \<^item> \<^verbatim>\<open>std::size_t\<close> values are natural numbers. Every index computed by the kernels is an
    offset into a buffer that the caller has allocated, and every boundary computed by
    \<^verbatim>\<open>partition\<close> is at most \<^verbatim>\<open>data_size\<close>, so these sums and products cannot wrap; the
    midpoints computed by \<^verbatim>\<open>CFTranspose\<close> are discussed with its definition.
  \<^item> \<^verbatim>\<open>std::complex<T>\<close> is the type \<^typ>\<open>complex\<close>, with exact arithmetic, in the kernels of
    the sections up to the matrix-matrix product. The section on double precision embeds
    the inner product a second time, on \<^verbatim>\<open>std::complex<double>\<close> with the rounding of every sum
    and product.
  \<^item> A \<^verbatim>\<open>std::complex<T> *\<close> argument is the memory reached from the pointer, a function from
    element offsets to values; an output pointer that may be null is an \<^typ>\<open>'a option\<close>, with
    \<^term>\<open>None\<close> the null pointer. Input and output buffers do not overlap.
  \<^item> A \<^verbatim>\<open>throw\<close> is the left injection of a sum. Integer division by zero, which the C++
    standard leaves undefined, is the error value \<open>DivisionByZero\<close>; an argument that
    BLAS reports as illegal is the error value \<open>IllegalBlasParameter\<close>.
  \<^item> The macro \<^verbatim>\<open>USE_CBLAS\<close> is an argument of \<open>matrixVecProd\<close>. The inner products and the
    matrix-matrix product are embedded for the build without BLAS (\<^verbatim>\<open>ENABLE_BLAS\<close> is \<^verbatim>\<open>OFF\<close>
    by default, hence \<^verbatim>\<open>USE_CBLAS\<close> is 0): the hand-written kernels on \<^verbatim>\<open>std::thread\<close> workers.
  \<^item> Names of the source that start with an underscore carry the prefix \<open>priv_\<close>;
    the overloads on \<^verbatim>\<open>std::vector\<close> carry the suffix \<open>_vec\<close>;
    \<^verbatim>\<open>partition\<close> is \<open>partition_bnd\<close>.
\<close>

section \<open>Error.hpp\<close>

datatype LightningException = LightningException (err_msg: string)

text \<open>\<^verbatim>\<open>what()\<close> returns the stored message.\<close>

definition what :: "LightningException \<Rightarrow> string" where
  "what e = err_msg e"

text \<open>
  \<^verbatim>\<open>operator<<\<close> of a string stream on an \<^verbatim>\<open>int\<close>: the decimal digits, most significant first,
  after a minus sign for a negative number.
\<close>

fun show_nat :: "nat \<Rightarrow> string" where
  "show_nat n =
     (if n < 10 then [''0123456789'' ! n]
      else show_nat (n div 10) @ [''0123456789'' ! (n mod 10)])"

definition show_int :: "int \<Rightarrow> string" where
  "show_int i = (if i < 0 then CHR ''-'' # show_nat (nat (- i)) else show_nat (nat i))"

text \<open>\<^verbatim>\<open>Abort\<close> has return type \<^verbatim>\<open>void\<close>; its only exit is the \<^verbatim>\<open>throw\<close>.\<close>

definition Abort :: "string \<Rightarrow> string \<Rightarrow> int \<Rightarrow> string \<Rightarrow> LightningException + unit" where
  "Abort message file_name line function_name =
     (let err_msg = ''['' @ file_name @ ''][Line:'' @ show_int line @
                    ''][Method:'' @ function_name @
                    '']: Error in PennyLane Lightning: '' @ message
      in Inl (LightningException err_msg))"

section \<open>Util.hpp\<close>

datatype error = InvalidArgument string | DivisionByZero | IllegalBlasParameter

type_synonym cbuf = "nat \<Rightarrow> complex"

definition DOTU_STD_CROSSOVER :: nat where
  "DOTU_STD_CROSSOVER = push_bit 20 1"

definition DOTC_STD_CROSSOVER :: nat where
  "DOTC_STD_CROSSOVER = push_bit 20 1"

subsection \<open>Scalar helpers\<close>

definition ConstMult :: "complex \<Rightarrow> complex \<Rightarrow> complex" where
  "ConstMult a b = Complex (Re a * Re b - Im a * Im b) (Re a * Im b + Im a * Re b)"

definition ConstMultConj :: "complex \<Rightarrow> complex \<Rightarrow> complex" where
  "ConstMultConj a b = Complex (Re a * Re b + Im a * Im b) (- Im a * Re b + Re a * Im b)"

definition ConstSum :: "complex \<Rightarrow> complex \<Rightarrow> complex" where
  "ConstSum a b = a + b"

text \<open>
  \<^verbatim>\<open>log2\<close> casts \<^verbatim>\<open>std::log2(value)\<close> to \<^verbatim>\<open>size_t\<close>, and \<^verbatim>\<open>dimSize\<close> casts
  \<^verbatim>\<open>std::floor(std::sqrt(s))\<close>: the integer parts of the binary logarithm and of the square
  root. Both are computed here on the naturals. \<^verbatim>\<open>dimSize\<close> uses the root only of a size that
  is a power of two, and the logarithm only of the root of a power of four: there the
  double-precision root of an even power of two and the logarithm of a power of two are
  exact, and no integer has an odd power of two as its square, whatever the rounding.
\<close>

fun log2 :: "nat \<Rightarrow> nat" where
  "log2 v = (if v < 2 then 0 else Suc (log2 (v div 2)))"

fun sqrt_search :: "nat \<Rightarrow> nat \<Rightarrow> nat" where
  "sqrt_search s 0 = 0"
| "sqrt_search s (Suc k) = (if Suc k * Suc k \<le> s then Suc k else sqrt_search s k)"

definition floor_sqrt :: "nat \<Rightarrow> nat" where
  "floor_sqrt s = sqrt_search s s"

subsection \<open>dimSize\<close>

definition dimSize :: "'a list \<Rightarrow> error + nat" where
  "dimSize data =
     (let s = length data;
          s_sqrt = floor_sqrt s
      in if s < 4 then Inl (InvalidArgument ''The dataset must be at least 2x2'')
         else if s = 0 \<or> and s (s - 1) \<noteq> 0
           then Inl (InvalidArgument ''The dataset must be a power of 2'')
         else if s_sqrt * s_sqrt \<noteq> s
           then Inl (InvalidArgument ''The dataset must be a perfect square'')
         else Inr (log2 s_sqrt))"

subsection \<open>partition\<close>

text \<open>
  The loop of \<^verbatim>\<open>partition\<close>, with its variables \<^verbatim>\<open>i\<close>, \<^verbatim>\<open>n1\<close> and \<^verbatim>\<open>bnd\<close> as arguments.
\<close>

function partition_loop :: "nat \<Rightarrow> nat \<Rightarrow> nat \<Rightarrow> nat \<Rightarrow> nat \<Rightarrow> nat list \<Rightarrow> nat list" where
  "partition_loop n data_size d i n1 bnd =
     (if i < n then
        (let n2 = n1 + d;
             n2 = (if i = n - 1 then data_size else n2)
         in partition_loop n data_size d (i + 1) n2 (bnd @ [n2]))
      else bnd)"
  by pat_completeness auto
termination
  by (relation "measure (\<lambda>(n, data_size, d, i, n1, bnd). n - i)") auto

definition partition_bnd :: "nat \<Rightarrow> nat \<Rightarrow> error + nat list" where
  "partition_bnd n data_size =
     (if n = 1 then Inr [0, data_size]
      else if n = 0 then Inl DivisionByZero
      else Inr (partition_loop n data_size (data_size div n) 0 0 [0]))"

subsection \<open>Worker threads\<close>

text \<open>
  A kernel starts \<^verbatim>\<open>nthreads\<close> workers, worker \<open>i\<close> on the index range from \<^verbatim>\<open>bnd[i]\<close> to
  \<^verbatim>\<open>bnd[i + 1]\<close>, and joins them all before it returns. The workers only read the input
  buffers. The workers of the inner product add their partial sum to the shared result
  inside a critical section; the workers of the matrix products write to disjoint ranges of
  rows of the output. The effects of the workers on the shared state therefore take place one
  worker after the other, in an order that the scheduler chooses: the list \<open>sched\<close> of worker
  indices. A schedule of \<open>nthreads\<close> workers holds each index below \<open>nthreads\<close> once.
\<close>

definition run_threads :: "nat list \<Rightarrow> (nat \<Rightarrow> 's \<Rightarrow> 's) \<Rightarrow> 's \<Rightarrow> 's" where
  "run_threads sched worker st = fold worker sched st"

definition schedule_of :: "nat \<Rightarrow> nat list \<Rightarrow> bool" where
  "schedule_of nthreads sched \<longleftrightarrow> mset sched = mset [0..<nthreads]"

subsection \<open>Inner products\<close>

definition priv_innerProd :: "cbuf \<Rightarrow> cbuf \<Rightarrow> complex \<Rightarrow> nat \<Rightarrow> nat \<Rightarrow> complex" where
  "priv_innerProd v1 v2 result l r =
     (let s = fold (\<lambda>i s. s + v1 i * v2 i) [l..<r] 0
      in result + s)"

text \<open>\<^verbatim>\<open>std::inner_product\<close> on the ranges of length \<open>data_size\<close> at \<open>v1\<close> and \<open>v2\<close>.\<close>

definition inner_product ::
  "cbuf \<Rightarrow> nat \<Rightarrow> cbuf \<Rightarrow> complex \<Rightarrow> (complex \<Rightarrow> complex \<Rightarrow> complex) \<Rightarrow>
   (complex \<Rightarrow> complex \<Rightarrow> complex) \<Rightarrow> complex" where
  "inner_product v1 data_size v2 init op1 op2 =
     fold (\<lambda>i acc. op1 acc (op2 (v1 i) (v2 i))) [0..<data_size] init"

definition innerProd :: "nat list \<Rightarrow> cbuf \<Rightarrow> cbuf \<Rightarrow> nat \<Rightarrow> nat \<Rightarrow> error + complex" where
  "innerProd sched v1 v2 data_size nthreads =
     (let result = 0
      in if data_size > DOTU_STD_CROSSOVER
         then Inr (inner_product v1 data_size v2 0 ConstSum ConstMult)
         else (case partition_bnd nthreads data_size of
                 Inl e \<Rightarrow> Inl e
               | Inr bnd \<Rightarrow>
                   Inr (run_threads sched
                         (\<lambda>i result. priv_innerProd v1 v2 result (bnd ! i) (bnd ! (i + 1)))
                         result)))"

definition priv_innerProdC :: "cbuf \<Rightarrow> cbuf \<Rightarrow> complex \<Rightarrow> nat \<Rightarrow> nat \<Rightarrow> complex" where
  "priv_innerProdC v1 v2 result l r =
     (let s = fold (\<lambda>i s. s + cnj (v1 i) * v2 i) [l..<r] 0
      in result + s)"

definition innerProdC :: "nat list \<Rightarrow> cbuf \<Rightarrow> cbuf \<Rightarrow> nat \<Rightarrow> nat \<Rightarrow> error + complex" where
  "innerProdC sched v1 v2 data_size nthreads =
     (let result = 0
      in if data_size > DOTC_STD_CROSSOVER
         then Inr (inner_product v1 data_size v2 0 ConstSum ConstMultConj)
         else (case partition_bnd nthreads data_size of
                 Inl e \<Rightarrow> Inl e
               | Inr bnd \<Rightarrow>
                   Inr (run_threads sched
                         (\<lambda>i result. priv_innerProdC v1 v2 result (bnd ! i) (bnd ! (i + 1)))
                         result)))"

text \<open>
  The overloads on vectors pass \<^verbatim>\<open>v1.data()\<close>, \<^verbatim>\<open>v2.data()\<close> and \<^verbatim>\<open>v1.size()\<close>, and leave
  \<^verbatim>\<open>nthreads\<close> at its default, 2.
\<close>

definition innerProd_vec :: "nat list \<Rightarrow> complex list \<Rightarrow> complex list \<Rightarrow> error + complex" where
  "innerProd_vec sched v1 v2 = innerProd sched (\<lambda>i. v1 ! i) (\<lambda>i. v2 ! i) (length v1) 2"

definition innerProdC_vec :: "nat list \<Rightarrow> complex list \<Rightarrow> complex list \<Rightarrow> error + complex" where
  "innerProdC_vec sched v1 v2 = innerProdC sched (\<lambda>i. v1 ! i) (\<lambda>i. v2 ! i) (length v1) 2"

subsection \<open>Matrix-vector product\<close>

definition priv_matrixVecProd ::
  "cbuf \<Rightarrow> cbuf \<Rightarrow> cbuf \<Rightarrow> nat \<Rightarrow> nat \<Rightarrow> nat \<Rightarrow> nat \<Rightarrow> bool \<Rightarrow> cbuf" where
  "priv_matrixVecProd mat v_in v_out m n left right transpose' =
     (if transpose' then
        fold (\<lambda>r. fold (\<lambda>c v_out. v_out(r := v_out r + mat (c * m + r) * v_in c)) [0..<n])
          [left..<right] v_out
      else
        fold (\<lambda>r. fold (\<lambda>c v_out. v_out(r := v_out r + mat (r * n + c) * v_in c)) [0..<n])
          [left..<right] v_out)"

text \<open>
  \<^verbatim>\<open>cblas_cgemv\<close> and \<^verbatim>\<open>cblas_zgemv\<close> of the BLAS library, as \<^verbatim>\<open>matrixVecProd\<close> calls them: row-major
  storage and increments 1. The routine computes \<open>y := alpha * op(A) * x + beta * y\<close>, where
  \<open>A\<close> has \<open>m\<close> rows and \<open>n\<close> columns, element \<open>(i, j)\<close> at \<open>a[i * lda + j]\<close>, and \<open>op(A)\<close> is
  \<open>A\<close> or its transpose. It reports an illegal parameter for \<open>lda < max(1, n)\<close> and returns at
  once, leaving \<open>y\<close> as it is, when \<open>m\<close> or \<open>n\<close> is 0.
\<close>

definition cblas_gemv ::
  "bool \<Rightarrow> nat \<Rightarrow> nat \<Rightarrow> complex \<Rightarrow> cbuf \<Rightarrow> nat \<Rightarrow> cbuf \<Rightarrow> complex \<Rightarrow> cbuf \<Rightarrow> error + cbuf" where
  "cblas_gemv tr m n alpha a lda x beta y =
     (if lda < max 1 n then Inl IllegalBlasParameter
      else if m = 0 \<or> n = 0 then Inr y
      else if tr then
        Inr (\<lambda>j. if j < n then alpha * (\<Sum>i<m. a (i * lda + j) * x i) + beta * y j else y j)
      else
        Inr (\<lambda>i. if i < m then alpha * (\<Sum>j<n. a (i * lda + j) * x j) + beta * y i else y i))"

text \<open>
  \<^verbatim>\<open>matrixVecProd\<close>, with the macro \<^verbatim>\<open>USE_CBLAS\<close> as its first argument and \<open>T\<close> one of \<^verbatim>\<open>float\<close>
  and \<^verbatim>\<open>double\<close>. With BLAS it passes the constants \<^verbatim>\<open>co\<close>, 1, for \<open>alpha\<close> and \<^verbatim>\<open>cz\<close>, 0, for
  \<open>beta\<close>, and \<open>m\<close> for \<open>lda\<close>.
\<close>

definition matrixVecProd ::
  "bool \<Rightarrow> nat list \<Rightarrow> cbuf \<Rightarrow> cbuf \<Rightarrow> cbuf option \<Rightarrow> nat \<Rightarrow> nat \<Rightarrow> nat \<Rightarrow> bool \<Rightarrow>
   error + cbuf option" where
  "matrixVecProd USE_CBLAS sched mat v_in v_out m n nthreads transpose' =
     (case v_out of
        None \<Rightarrow> Inr None
      | Some out \<Rightarrow>
          if USE_CBLAS then
            (let co = 1; cz = 0
             in case cblas_gemv transpose' m n co mat m v_in cz out of
                  Inl e \<Rightarrow> Inl e
                | Inr out' \<Rightarrow> Inr (Some out'))
          else
            (case partition_bnd nthreads m of
               Inl e \<Rightarrow> Inl e
             | Inr bnd \<Rightarrow>
                 Inr (Some (run_threads sched
                       (\<lambda>i out. priv_matrixVecProd mat v_in out m n (bnd ! i) (bnd ! (i + 1)) transpose')
                       out))))"

subsection \<open>Transpose\<close>

definition BLOCK_THRESHOLD :: nat where
  "BLOCK_THRESHOLD = 16"

text \<open>
  \<^verbatim>\<open>CFTranspose\<close> calls itself on the first half of the longer side and jumps back to its
  label \<^verbatim>\<open>tail\<close> for the second half: two calls in sequence on the same output buffer.
  It is only called by \<^verbatim>\<open>Transpose\<close> and by itself, with \<open>m1 \<le> m2 \<le> m\<close> and \<open>n1 \<le> n2 \<le> n\<close>, so
  the differences \<open>m2 - m1\<close> and \<open>n2 - n1\<close> are not negative; the sums \<open>m1 + m2\<close> and \<open>n1 + n2\<close>
  stay below \<open>2\<^sup>6\<^sup>4\<close> for matrices of fewer than \<open>2\<^sup>6\<^sup>3\<close> rows and columns.
\<close>

function CFTranspose ::
  "cbuf \<Rightarrow> cbuf \<Rightarrow> nat \<Rightarrow> nat \<Rightarrow> nat \<Rightarrow> nat \<Rightarrow> nat \<Rightarrow> nat \<Rightarrow> cbuf" where
  "CFTranspose mat mat_t m n m1 m2 n1 n2 =
     (let r1 = m2 - m1;
          s1 = n2 - n1
      in if r1 \<ge> s1 \<and> r1 > BLOCK_THRESHOLD then
           (let r2 = (m1 + m2) div 2
            in CFTranspose mat (CFTranspose mat mat_t m n m1 r2 n1 n2) m n r2 m2 n1 n2)
         else if s1 > BLOCK_THRESHOLD then
           (let s2 = (n1 + n2) div 2
            in CFTranspose mat (CFTranspose mat mat_t m n m1 m2 n1 s2) m n m1 m2 s2 n2)
         else
           fold (\<lambda>r. fold (\<lambda>s mat_t. mat_t(s * m + r := mat (r * n + s))) [n1..<n2])
             [m1..<m2] mat_t)"
  by pat_completeness auto
termination
  by (relation "measure (\<lambda>(mat, mat_t, m, n, m1, m2, n1, n2). (m2 - m1) + (n2 - n1))")
     (auto simp: BLOCK_THRESHOLD_def)

definition Transpose :: "cbuf \<Rightarrow> cbuf \<Rightarrow> nat \<Rightarrow> nat \<Rightarrow> cbuf" where
  "Transpose mat mat_t m n = CFTranspose mat mat_t m n 0 m 0 n"

text \<open>The naive double loop that the blocked routine is compared with.\<close>

definition naive_transpose :: "cbuf \<Rightarrow> cbuf \<Rightarrow> nat \<Rightarrow> nat \<Rightarrow> cbuf" where
  "naive_transpose mat mat_t m n =
     fold (\<lambda>r. fold (\<lambda>s mat_t. mat_t(s * m + r := mat (r * n + s))) [0..<n]) [0..<m] mat_t"

subsection \<open>Matrix-matrix product\<close>

definition priv_matrixMatProd_tp ::
  "cbuf \<Rightarrow> cbuf \<Rightarrow> cbuf \<Rightarrow> nat \<Rightarrow> nat \<Rightarrow> nat \<Rightarrow> nat \<Rightarrow> nat \<Rightarrow> cbuf" where
  "priv_matrixMatProd_tp m_left m_right m_out m n k left right =
     fold (\<lambda>r. fold (\<lambda>c. fold (\<lambda>b m_out.
             m_out(r * n + c := m_out (r * n + c) + m_left (r * k + b) * m_right (c * n + b)))
           [0..<k]) [0..<n]) [left..<right] m_out"

definition priv_matrixMatProd ::
  "cbuf \<Rightarrow> cbuf \<Rightarrow> cbuf \<Rightarrow> nat \<Rightarrow> nat \<Rightarrow> nat \<Rightarrow> nat \<Rightarrow> nat \<Rightarrow> cbuf" where
  "priv_matrixMatProd m_left m_right m_out m n k left right =
     fold (\<lambda>r. fold (\<lambda>c. fold (\<lambda>b m_out.
             m_out(r * n + c := m_out (r * n + c) + m_left (r * k + b) * m_right (b * n + c)))
           [0..<k]) [0..<n]) [left..<right] m_out"

definition matrixMatProd ::
  "nat list \<Rightarrow> cbuf \<Rightarrow> cbuf \<Rightarrow> cbuf option \<Rightarrow> nat \<Rightarrow> nat \<Rightarrow> nat \<Rightarrow> nat \<Rightarrow> bool \<Rightarrow>
   error + cbuf option" where
  "matrixMatProd sched m_left m_right m_out m n k nthreads transpose' =
     (case m_out of
        None \<Rightarrow> Inr None
      | Some out \<Rightarrow>
          (case partition_bnd nthreads m of
             Inl e \<Rightarrow> Inl e
           | Inr bnd \<Rightarrow>
               if transpose' then
                 Inr (Some (run_threads sched
                       (\<lambda>i out. priv_matrixMatProd m_left m_right out m n k (bnd ! i) (bnd ! (i + 1)))
                       out))
               else
                 Inr (Some (run_threads sched
                       (\<lambda>i out. priv_matrixMatProd_tp m_left m_right out m n k (bnd ! i) (bnd ! (i + 1)))
                       out))))"

section \<open>The inner product in double precision\<close>

text \<open>
  A finite \<^verbatim>\<open>double\<close> is \<open>mantissa * 2 ^ exponent\<close>. A sum or a product is the exact result
  rounded to the nearest number of 53 significant bits, to the one with the even mantissa
  when two are equally near (the default rounding of IEEE 754), with the last bit at
  \<open>2 ^ - 1074\<close> at the least. Infinities, NaN, the sign of zero and results beyond the
  largest \<^verbatim>\<open>double\<close> are not part of the model.
\<close>

datatype double = Double (mantissa: int) (exponent: int)

text \<open>The number of bits of a positive integer.\<close>

function nbits :: "int \<Rightarrow> int" where
  "nbits m = (if m \<le> 0 then 0 else 1 + nbits (m div 2))"
  by pat_completeness auto
termination
  by (relation "measure nat") auto

text \<open>\<open>m / 2 ^ k\<close> rounded to the nearest integer, to the even one of two equally near.\<close>

definition round_shift :: "int \<Rightarrow> nat \<Rightarrow> int" where
  "round_shift m k =
     (let q = m div 2 ^ k;
          r = m mod 2 ^ k
      in if 2 * r < 2 ^ k then q
         else if 2 * r > 2 ^ k then q + 1
         else if even q then q else q + 1)"

definition round_double :: "int \<Rightarrow> int \<Rightarrow> double" where
  "round_double m e =
     (let k = max (nbits \<bar>m\<bar> - 53) (- 1074 - e)
      in if k \<le> 0 then Double m e else Double (round_shift m (nat k)) (e + k))"

instantiation double :: "{zero, plus, uminus, minus, times}"
begin

definition zero_double :: double where
  "zero_double = Double 0 0"

definition plus_double :: "double \<Rightarrow> double \<Rightarrow> double" where
  "plus_double a b =
     (let e = min (exponent a) (exponent b)
      in round_double (mantissa a * 2 ^ nat (exponent a - e) + mantissa b * 2 ^ nat (exponent b - e)) e)"

definition uminus_double :: "double \<Rightarrow> double" where
  "uminus_double a = Double (- mantissa a) (exponent a)"

definition minus_double :: "double \<Rightarrow> double \<Rightarrow> double" where
  "minus_double a b = a + (- b)"

definition times_double :: "double \<Rightarrow> double \<Rightarrow> double" where
  "times_double a b = round_double (mantissa a * mantissa b) (exponent a + exponent b)"

instance ..

end

text \<open>The rational number that a \<^verbatim>\<open>double\<close> stands for.\<close>

definition double_value :: "double \<Rightarrow> rat" where
  "double_value a =
     (if 0 \<le> exponent a then of_int (mantissa a * 2 ^ nat (exponent a))
      else of_int (mantissa a) / of_int (2 ^ nat (- exponent a)))"

text \<open>
  \<^verbatim>\<open>std::complex<double>\<close>: the sum adds the parts, the product is
  \<open>(a.re * b.re - a.im * b.im, a.re * b.im + a.im * b.re)\<close>, each operation rounded.
\<close>

datatype cdouble = CDouble (real_part: double) (imag_part: double)

instantiation cdouble :: "{zero, plus, times}"
begin

definition zero_cdouble :: cdouble where
  "zero_cdouble = CDouble 0 0"

definition plus_cdouble :: "cdouble \<Rightarrow> cdouble \<Rightarrow> cdouble" where
  "plus_cdouble a b = CDouble (real_part a + real_part b) (imag_part a + imag_part b)"

definition times_cdouble :: "cdouble \<Rightarrow> cdouble \<Rightarrow> cdouble" where
  "times_cdouble a b =
     CDouble (real_part a * real_part b - imag_part a * imag_part b)
             (real_part a * imag_part b + imag_part a * real_part b)"

instance ..

end

text \<open>The pair of rational numbers that a \<^verbatim>\<open>std::complex<double>\<close> stands for.\<close>

definition cdouble_value :: "cdouble \<Rightarrow> rat \<times> rat" where
  "cdouble_value a = (double_value (real_part a), double_value (imag_part a))"

text \<open>
  \<^verbatim>\<open>ConstMult\<close>, \<^verbatim>\<open>ConstSum\<close>, \<^verbatim>\<open>_innerProd\<close>, \<^verbatim>\<open>std::inner_product\<close> and \<^verbatim>\<open>innerProd\<close> once more, for
  \<open>T = double\<close>.
\<close>

definition ConstMult_double :: "cdouble \<Rightarrow> cdouble \<Rightarrow> cdouble" where
  "ConstMult_double a b =
     CDouble (real_part a * real_part b - imag_part a * imag_part b)
             (real_part a * imag_part b + imag_part a * real_part b)"

definition ConstSum_double :: "cdouble \<Rightarrow> cdouble \<Rightarrow> cdouble" where
  "ConstSum_double a b = a + b"

definition priv_innerProd_double ::
  "(nat \<Rightarrow> cdouble) \<Rightarrow> (nat \<Rightarrow> cdouble) \<Rightarrow> cdouble \<Rightarrow> nat \<Rightarrow> nat \<Rightarrow> cdouble" where
  "priv_innerProd_double v1 v2 result l r =
     (let s = fold (\<lambda>i s. s + v1 i * v2 i) [l..<r] 0
      in result + s)"

definition inner_product_double ::
  "(nat \<Rightarrow> cdouble) \<Rightarrow> nat \<Rightarrow> (nat \<Rightarrow> cdouble) \<Rightarrow> cdouble \<Rightarrow> (cdouble \<Rightarrow> cdouble \<Rightarrow> cdouble) \<Rightarrow>
   (cdouble \<Rightarrow> cdouble \<Rightarrow> cdouble) \<Rightarrow> cdouble" where
  "inner_product_double v1 data_size v2 init op1 op2 =
     fold (\<lambda>i acc. op1 acc (op2 (v1 i) (v2 i))) [0..<data_size] init"

definition innerProd_double ::
  "nat list \<Rightarrow> (nat \<Rightarrow> cdouble) \<Rightarrow> (nat \<Rightarrow> cdouble) \<Rightarrow> nat \<Rightarrow> nat \<Rightarrow> error + cdouble" where
  "innerProd_double sched v1 v2 data_size nthreads =
     (let result = 0
      in if data_size > DOTU_STD_CROSSOVER
         then Inr (inner_product_double v1 data_size v2 0 ConstSum_double ConstMult_double)
         else (case partition_bnd nthreads data_size of
                 Inl e \<Rightarrow> Inl e
               | Inr bnd \<Rightarrow>
                   Inr (run_threads sched
                         (\<lambda>i result. priv_innerProd_double v1 v2 result (bnd ! i) (bnd ! (i + 1)))
                         result)))"

text \<open>The \<^verbatim>\<open>std::complex<double>\<close> nearest to an integer, with imaginary part 0.\<close>

definition double_of_int :: "int \<Rightarrow> cdouble" where
  "double_of_int i = CDouble (round_double i 0) 0"

section \<open>Reference notions\<close>

text \<open>The sum of the squared magnitudes of the entries of a vector.\<close>

definition sum_sq_magnitudes :: "complex list \<Rightarrow> real" where
  "sum_sq_magnitudes v = (\<Sum>x\<leftarrow>v. (cmod x)\<^sup>2)"

text \<open>
  The rows that the workers handle, in the order of a schedule: worker \<open>i\<close> handles the rows
  from \<open>bnd ! i\<close> up to \<open>bnd ! (i + 1)\<close>.
\<close>

definition thread_rows :: "nat list \<Rightarrow> nat list \<Rightarrow> nat list" where
  "thread_rows bnd sched = concat (map (\<lambda>i. [bnd ! i..<bnd ! (i + 1)]) sched)"

text \<open>
  The output buffer with the block of the rows from \<open>m1\<close> up to \<open>m2\<close> and the columns from
  \<open>n1\<close> up to \<open>n2\<close> of \<open>mat\<close> written in transposed position: the cell \<open>s * m + r\<close> of the
  output, with \<open>r < m\<close>, belongs to row \<open>r\<close> and column \<open>s\<close> of \<open>mat\<close>.
\<close>

definition in_block :: "nat \<Rightarrow> nat \<Rightarrow> nat \<Rightarrow> nat \<Rightarrow> nat \<Rightarrow> nat \<Rightarrow> bool" where
  "in_block m m1 m2 n1 n2 x \<longleftrightarrow> m1 \<le> x mod m \<and> x mod m < m2 \<and> n1 \<le> x div m \<and> x div m < n2"

definition block_transposed ::
  "cbuf \<Rightarrow> cbuf \<Rightarrow> nat \<Rightarrow> nat \<Rightarrow> nat \<Rightarrow> nat \<Rightarrow> nat \<Rightarrow> nat \<Rightarrow> cbuf" where
  "block_transposed mat mat_t m n m1 m2 n1 n2 =
     (\<lambda>x. if in_block m m1 m2 n1 n2 x then mat (x mod m * n + x div m) else mat_t x)"

text \<open>
  The integer that a decimal numeral stands for: digits (the characters with the codes 48 to
  57), after a minus sign for a negative number, without leading zeros; every other string
  stands for no integer.
\<close>

definition digit_of :: "char \<Rightarrow> nat option" where
  "digit_of c =
     (let k = of_char c
      in if (48::nat) \<le> k \<and> k \<le> 57 then Some (k - 48) else None)"

fun read_digits :: "string \<Rightarrow> nat \<Rightarrow> nat option" where
  "read_digits [] acc = Some acc"
| "read_digits (c # cs) acc =
     (case digit_of c of None \<Rightarrow> None | Some d \<Rightarrow> read_digits cs (10 * acc + d))"

definition decimal_nat :: "string \<Rightarrow> nat option" where
  "decimal_nat s =
     (case s of
        [] \<Rightarrow> None
      | c # cs \<Rightarrow> if c = CHR ''0'' then (if cs = [] then Some 0 else None) else read_digits s 0)"

definition decimal_int :: "string \<Rightarrow> int option" where
  "decimal_int s =
     (case s of
        [] \<Rightarrow> None
      | c # cs \<Rightarrow>
          if c = CHR ''-'' then
            (case decimal_nat cs of
               None \<Rightarrow> None
             | Some n \<Rightarrow> if n = 0 then None else Some (- int n))
          else map_option int (decimal_nat s))"

text \<open>The value that a call of the inner product returns, if it returns.\<close>

definition returned_value :: "error + cdouble \<Rightarrow> (rat \<times> rat) option" where
  "returned_value res = (case res of Inl e \<Rightarrow> None | Inr c \<Rightarrow> Some (cdouble_value c))"


chapter \<open>Properties\<close>

declare partition_loop.simps [simp del]
declare CFTranspose.simps [simp del]
declare log2.simps [simp del]
declare show_nat.simps [simp del]
declare nbits.simps [simp del]

section \<open>Abort\<close>

text \<open>The numeral that \<^verbatim>\<open>operator<<\<close> writes for an \<^verbatim>\<open>int\<close> stands for that number.\<close>

lemma show_nat_small: "n < 10 \<Longrightarrow> show_nat n = [''0123456789'' ! n]"
  by (subst show_nat.simps) simp

lemma show_nat_large:
  "\<not> n < 10 \<Longrightarrow> show_nat n = show_nat (n div 10) @ [''0123456789'' ! (n mod 10)]"
  by (subst show_nat.simps) simp

lemma below_10:
  "d < 10 \<Longrightarrow>
   d = 0 \<or> d = 1 \<or> d = 2 \<or> d = 3 \<or> d = 4 \<or> d = 5 \<or> d = 6 \<or> d = 7 \<or> d = 8 \<or> d = (9::nat)"
  by arith

lemma digit_of_digit:
  assumes "d < 10"
  shows "digit_of (''0123456789'' ! d) = Some d"
  using below_10 [OF assms] by (elim disjE) (simp_all add: digit_of_def)

lemma digit_not_minus:
  assumes "d < 10"
  shows "''0123456789'' ! d \<noteq> CHR ''-''"
  using below_10 [OF assms] by (elim disjE) simp_all

lemma digit_zero_iff:
  assumes "d < 10"
  shows "''0123456789'' ! d = CHR ''0'' \<longleftrightarrow> d = 0"
  using below_10 [OF assms] by (elim disjE) simp_all

lemma read_digits_snoc:
  "read_digits (cs @ [c]) acc =
     (case read_digits cs acc of
        None \<Rightarrow> None
      | Some a \<Rightarrow> (case digit_of c of None \<Rightarrow> None | Some d \<Rightarrow> Some (10 * a + d)))"
  by (induction cs arbitrary: acc) (auto split: option.splits)

lemma read_digits_show_nat: "read_digits (show_nat n) 0 = Some n"
proof (induction n rule: show_nat.induct)
  case (1 n)
  show ?case
  proof (cases "n < 10")
    case True
    then show ?thesis by (simp add: show_nat_small digit_of_digit)
  next
    case False
    have "n mod 10 < 10" by simp
    then have d: "digit_of (''0123456789'' ! (n mod 10)) = Some (n mod 10)"
      by (rule digit_of_digit)
    have ih: "read_digits (show_nat (n div 10)) 0 = Some (n div 10)"
      using False by (rule 1)
    show ?thesis
      by (simp add: show_nat_large [OF False] read_digits_snoc ih d)
  qed
qed

lemma show_nat_hd:
  "show_nat n \<noteq> [] \<and> hd (show_nat n) \<noteq> CHR ''-'' \<and> (hd (show_nat n) = CHR ''0'' \<longleftrightarrow> n = 0)"
proof (induction n rule: show_nat.induct)
  case (1 n)
  show ?case
  proof (cases "n < 10")
    case True
    then show ?thesis by (simp add: show_nat_small digit_not_minus digit_zero_iff)
  next
    case False
    then have nz: "n div 10 \<noteq> 0" "n \<noteq> 0" by simp_all
    have ih: "show_nat (n div 10) \<noteq> [] \<and> hd (show_nat (n div 10)) \<noteq> CHR ''-'' \<and>
              (hd (show_nat (n div 10)) = CHR ''0'' \<longleftrightarrow> n div 10 = 0)"
      using False by (rule 1)
    show ?thesis
      using ih nz by (simp add: show_nat_large [OF False])
  qed
qed

lemma show_nat_0: "show_nat 0 = ''0''"
  by (subst show_nat.simps) simp

lemma decimal_nat_show_nat: "decimal_nat (show_nat n) = Some n"
proof (cases "n = 0")
  case True
  then show ?thesis by (simp add: show_nat_0 decimal_nat_def)
next
  case False
  obtain c cs where cs: "show_nat n = c # cs" using show_nat_hd [of n] by (cases "show_nat n") auto
  then have "c \<noteq> CHR ''0''" using show_nat_hd [of n] False by auto
  then show ?thesis
    using read_digits_show_nat [of n] by (simp add: decimal_nat_def cs)
qed

lemma decimal_int_show_int: "decimal_int (show_int i) = Some i"
proof (cases "i < 0")
  case True
  then have "nat (- i) \<noteq> 0" by simp
  then show ?thesis
    using True by (simp add: decimal_int_def show_int_def decimal_nat_show_nat)
next
  case False
  obtain c cs where cs: "show_nat (nat i) = c # cs"
    using show_nat_hd [of "nat i"] by (cases "show_nat (nat i)") auto
  then have "c \<noteq> CHR ''-''" using show_nat_hd [of "nat i"] by auto
  then show ?thesis
    using False decimal_nat_show_nat [of "nat i"] by (simp add: decimal_int_def show_int_def cs)
qed

text \<open>
  Conversely, a string that stands for an integer is the numeral that \<^verbatim>\<open>operator<<\<close> writes
  for it: no other string is read as that number.
\<close>

lemma digit_of_inj:
  assumes "digit_of c = Some d" and "digit_of c' = Some d"
  shows "c = c'"
proof -
  from assms(1) have "(of_char c :: nat) = d + 48"
    by (auto simp add: digit_of_def Let_def split: if_splits)
  moreover from assms(2) have "(of_char c' :: nat) = d + 48"
    by (auto simp add: digit_of_def Let_def split: if_splits)
  ultimately have "(of_char c :: nat) = of_char c'" by simp
  then show ?thesis by (simp only: of_char_eq_iff)
qed

lemma digit_of_Some:
  assumes "digit_of c = Some d"
  shows "d < 10 \<and> c = ''0123456789'' ! d"
proof -
  from assms have lt: "d < 10"
    by (auto simp add: digit_of_def Let_def split: if_splits)
  from digit_of_inj [OF assms digit_of_digit [OF lt]] lt show ?thesis by simp
qed

lemma read_digits_canonical:
  "s \<noteq> [] \<Longrightarrow> hd s \<noteq> CHR ''0'' \<Longrightarrow> read_digits s 0 = Some n \<Longrightarrow> s = show_nat n \<and> 0 < n"
proof (induction s arbitrary: n rule: rev_induct)
  case Nil
  then show ?case by simp
next
  case (snoc c cs)
  from snoc.prems(3) obtain q d where q: "read_digits cs 0 = Some q"
    and d: "digit_of c = Some d" and n: "n = 10 * q + d"
    by (auto simp add: read_digits_snoc split: option.splits)
  note dd = digit_of_Some [OF d]
  show ?case
  proof (cases "cs = []")
    case True
    then have q0: "q = 0" using q by simp
    have "c \<noteq> CHR ''0''" using snoc.prems(2) True by simp
    then have "d \<noteq> 0" using dd digit_zero_iff [of d] by simp
    then show ?thesis using True q0 n dd by (simp add: show_nat_small)
  next
    case False
    then have "hd cs \<noteq> CHR ''0''" using snoc.prems(2) by simp
    from snoc.IH [OF False this q] have ih: "cs = show_nat q" "0 < q" by simp_all
    have "\<not> n < 10" using n ih(2) by arith
    moreover have "n div 10 = q" "n mod 10 = d" using n dd by simp_all
    ultimately show ?thesis using ih dd n by (simp add: show_nat_large)
  qed
qed

lemma decimal_nat_canonical: "decimal_nat s = Some n \<Longrightarrow> s = show_nat n"
proof (cases s)
  case Nil
  assume "decimal_nat s = Some n"
  then show ?thesis using Nil by (simp add: decimal_nat_def)
next
  case (Cons c cs)
  assume a: "decimal_nat s = Some n"
  show ?thesis
  proof (cases "c = CHR ''0''")
    case True
    then have "cs = []" "n = 0" using a Cons by (auto simp add: decimal_nat_def split: if_splits)
    then show ?thesis using Cons True by (simp add: show_nat_small)
  next
    case False
    then have "read_digits s 0 = Some n" using a Cons by (simp add: decimal_nat_def)
    moreover have "s \<noteq> []" "hd s \<noteq> CHR ''0''" using Cons False by simp_all
    ultimately show ?thesis using read_digits_canonical by blast
  qed
qed

lemma decimal_int_canonical: "decimal_int s = Some i \<Longrightarrow> s = show_int i"
proof (cases s)
  case Nil
  assume "decimal_int s = Some i"
  then show ?thesis using Nil by (simp add: decimal_int_def)
next
  case (Cons c cs)
  assume a: "decimal_int s = Some i"
  show ?thesis
  proof (cases "c = CHR ''-''")
    case True
    then obtain n where n: "decimal_nat cs = Some n" "n \<noteq> 0" "i = - int n"
      using a Cons by (auto simp add: decimal_int_def split: option.splits if_splits)
    from decimal_nat_canonical [OF n(1)] have "cs = show_nat n" .
    then show ?thesis using Cons True n by (simp add: show_int_def)
  next
    case False
    then obtain n where n: "decimal_nat s = Some n" "i = int n"
      using a Cons by (auto simp add: decimal_int_def)
    from decimal_nat_canonical [OF n(1)] have "s = show_nat n" .
    then show ?thesis using n by (simp add: show_int_def)
  qed
qed

text \<open>
  Claim C9. For every message, file name, line number and function name, \<^verbatim>\<open>Abort\<close> throws a
  \<^verbatim>\<open>LightningException\<close> and never returns, and the string that \<^verbatim>\<open>what()\<close> gives for the
  thrown exception contains the file name, the line number, the function name and the
  message: it is \<open>[file][Line:num][Method:function]: Error in PennyLane Lightning: message\<close>,
  where \<open>num\<close> is the decimal numeral of the line number.
\<close>

theorem Abort_throws:
  "\<exists>e num. Abort message file_name line function_name = Inl e \<and>
       decimal_int num = Some line \<and>
       what e = ''['' @ file_name @ ''][Line:'' @ num @ ''][Method:'' @ function_name @
                '']: Error in PennyLane Lightning: '' @ message \<and>
       sublist file_name (what e) \<and> sublist num (what e) \<and>
       sublist function_name (what e) \<and> sublist message (what e)"
proof -
  let ?num = "show_int line"
  let ?msg = "''['' @ file_name @ ''][Line:'' @ ?num @ ''][Method:'' @ function_name @
              '']: Error in PennyLane Lightning: '' @ message"
  have eq: "Abort message file_name line function_name = Inl (LightningException ?msg)"
    by (simp add: Abort_def)
  have w: "what (LightningException ?msg) = ?msg"
    by (simp add: what_def)
  have f: "sublist file_name ?msg"
    unfolding sublist_def by (rule exI [of _ "''[''"], rule exI) simp
  have l: "sublist ?num ?msg"
    unfolding sublist_def by (rule exI [of _ "''['' @ file_name @ ''][Line:''"], rule exI) simp
  have fn: "sublist function_name ?msg"
    unfolding sublist_def
    by (rule exI [of _ "''['' @ file_name @ ''][Line:'' @ ?num @ ''][Method:''"], rule exI)
       simp
  have m: "sublist message ?msg"
    unfolding sublist_def
    by (rule exI [of _ "''['' @ file_name @ ''][Line:'' @ ?num @ ''][Method:'' @
                        function_name @ '']: Error in PennyLane Lightning: ''"],
        rule exI [of _ "[]"]) simp
  show ?thesis
    by (rule exI [of _ "LightningException ?msg"], rule exI [of _ ?num])
       (simp only: eq w f l fn m decimal_int_show_int simp_thms)
qed

text \<open>The message built for a call from line 120 of a file, as an example.\<close>

lemma Abort_example:
  "Abort ''bad gate'' ''Gates.hpp'' 120 ''applyRX'' =
     Inl (LightningException
       ''[Gates.hpp][Line:120][Method:applyRX]: Error in PennyLane Lightning: bad gate'')"
  by (simp add: Abort_def show_int_def show_nat.simps)

text \<open>Strings that are decimal numerals, and strings that are not.\<close>

lemma decimal_examples:
  "decimal_int ''120'' = Some 120" "decimal_int ''-7'' = Some (- 7)" "decimal_int '''' = None"
  "decimal_int ''007'' = None" "decimal_int ''-0'' = None" "decimal_int ''12a'' = None"
  by (simp_all add: decimal_int_def decimal_nat_def digit_of_def)

section \<open>partition\<close>

lemma partition_loop_closed:
  "partition_loop n ds d i n1 bnd =
     bnd @ map (\<lambda>j. if j = n - 1 then ds else n1 + (j - i + 1) * d) [i..<n]"
proof (induction n ds d i n1 bnd rule: partition_loop.induct)
  case (1 n ds d i n1 bnd)
  show ?case
  proof (cases "i < n")
    case True
    have upt: "[i..<n] = i # [Suc i..<n]" using True by (simp add: upt_conv_Cons)
    let ?n2 = "if i = n - 1 then ds else n1 + d"
    have "partition_loop n ds d i n1 bnd = partition_loop n ds d (i + 1) ?n2 (bnd @ [?n2])"
      using True by (subst partition_loop.simps) (simp add: Let_def)
    also have "\<dots> = (bnd @ [?n2]) @
        map (\<lambda>j. if j = n - 1 then ds else ?n2 + (j - (i + 1) + 1) * d) [i + 1..<n]"
      using True by (intro 1) (simp_all add: Let_def)
    also have "\<dots> = bnd @ map (\<lambda>j. if j = n - 1 then ds else n1 + (j - i + 1) * d) [i..<n]"
    proof -
      have "d + (x - Suc i) * d = (x - i) * d" if "Suc i \<le> x" for x
      proof -
        have "x - i = Suc (x - Suc i)" using that by simp
        then show ?thesis by simp
      qed
      then show ?thesis unfolding upt by simp
    qed
    finally show ?thesis .
  next
    case False
    then show ?thesis by (subst partition_loop.simps) simp
  qed
qed

lemma partition_loop_0:
  "partition_loop n ds d 0 0 [0] =
     0 # map (\<lambda>j. if j = n - 1 then ds else (j + 1) * d) [0..<n]"
  by (simp add: partition_loop_closed)

text \<open>
  For at least one worker the boundaries are \<open>0, d, 2 d, \<dots>, (n - 1) d, data_size\<close> with
  \<open>d = data_size div n\<close>.
\<close>

lemma partition_bnd_nth:
  assumes "1 \<le> n"
  shows "\<exists>bnd. partition_bnd n ds = Inr bnd \<and> length bnd = n + 1 \<and>
           (\<forall>i\<le>n. bnd ! i = (if i = n then ds else i * (ds div n)))"
proof (cases "n = 1")
  case True
  then show ?thesis by (auto simp: partition_bnd_def nth_Cons split: nat.splits)
next
  case False
  with assms have n: "2 \<le> n" by simp
  let ?f = "\<lambda>j. if j = n - 1 then ds else (j + 1) * (ds div n)"
  let ?bnd = "0 # map ?f [0..<n]"
  have eq: "partition_bnd n ds = Inr ?bnd"
    using n by (simp add: partition_bnd_def partition_loop_0)
  have "?bnd ! i = (if i = n then ds else i * (ds div n))" if "i \<le> n" for i
    using that n by (cases i) auto
  then show ?thesis using eq by auto
qed

lemma partition_step_le: "i \<le> n \<Longrightarrow> i * (ds div n) \<le> (ds::nat)"
proof -
  assume "i \<le> n"
  then have "i * (ds div n) \<le> n * (ds div n)" by (rule mult_le_mono1)
  also have "\<dots> \<le> ds" by simp
  finally show ?thesis .
qed

text \<open>
  Boundaries that do not decrease cut the range between the first and the last of them into
  consecutive pieces: every index of the range lies in exactly one piece.
\<close>

lemma boundaries_cover:
  fixes bnd :: "nat list"
  assumes mono: "\<And>i k. i \<le> k \<Longrightarrow> k \<le> n \<Longrightarrow> bnd ! i \<le> bnd ! k"
    and lo: "bnd ! 0 \<le> j" and hi: "j < bnd ! n"
  shows "\<exists>!i. i < n \<and> bnd ! i \<le> j \<and> j < bnd ! (i + 1)"
proof -
  have n: "0 < n" using lo hi by (cases n) auto
  define i where "i = (LEAST i. j < bnd ! (i + 1))"
  have ex: "j < bnd ! ((n - 1) + 1)" using hi n by simp
  have i1: "j < bnd ! (i + 1)" unfolding i_def using ex by (rule LeastI)
  have i2: "i \<le> n - 1" unfolding i_def using ex by (rule Least_le)
  have i3: "bnd ! i \<le> j"
  proof (cases i)
    case 0
    then show ?thesis using lo by simp
  next
    case (Suc k)
    have "k < i" using Suc by simp
    then have "\<not> j < bnd ! (k + 1)" unfolding i_def by (rule not_less_Least)
    then show ?thesis using Suc by simp
  qed
  have uniq: "a = b" if a: "a < n" "bnd ! a \<le> j" "j < bnd ! (a + 1)"
    and b: "b < n" "bnd ! b \<le> j" "j < bnd ! (b + 1)" for a b
  proof (rule ccontr)
    assume "a \<noteq> b"
    then consider "a + 1 \<le> b" | "b + 1 \<le> a" by linarith
    then show False
    proof cases
      case 1
      then have "bnd ! (a + 1) \<le> bnd ! b" using b(1) by (intro mono) auto
      then show False using a b by linarith
    next
      case 2
      then have "bnd ! (b + 1) \<le> bnd ! a" using a(1) by (intro mono) auto
      then show False using a b by linarith
    qed
  qed
  show ?thesis
  proof (rule ex1I [of _ i])
    show "i < n \<and> bnd ! i \<le> j \<and> j < bnd ! (i + 1)" using i1 i2 i3 n by simp
  next
    fix k assume "k < n \<and> bnd ! k \<le> j \<and> j < bnd ! (k + 1)"
    moreover have "i < n" using i2 n by simp
    ultimately show "k = i" using uniq [of k i] i1 i3 by simp
  qed
qed

text \<open>
  Claim C10. For every \<open>n \<ge> 1\<close> and every \<open>data_size\<close>, also one below \<open>n\<close>,
  \<^verbatim>\<open>partition(n, data_size)\<close> returns \<open>n + 1\<close> boundaries that do not decrease, start at 0 and
  end at \<open>data_size\<close>; every index below \<open>data_size\<close> lies between exactly one pair of
  consecutive boundaries, so the \<open>n\<close> ranges are disjoint and cover the indices once.
\<close>

theorem partition_boundaries:
  assumes "1 \<le> n"
  shows "\<exists>bnd. partition_bnd n data_size = Inr bnd \<and> length bnd = n + 1 \<and> sorted bnd \<and>
     bnd ! 0 = 0 \<and> bnd ! n = data_size \<and>
     (\<forall>j<data_size. \<exists>!i. i < n \<and> bnd ! i \<le> j \<and> j < bnd ! (i + 1))"
proof -
  from partition_bnd_nth [OF assms, of data_size] obtain bnd where
    eq: "partition_bnd n data_size = Inr bnd" and len: "length bnd = n + 1"
    and nth: "\<And>i. i \<le> n \<Longrightarrow> bnd ! i = (if i = n then data_size else i * (data_size div n))"
    by blast
  have mono: "bnd ! i \<le> bnd ! k" if "i \<le> k" "k \<le> n" for i k
    using that partition_step_le [of i n data_size] by (simp add: nth mult_le_mono1)
  have srt: "sorted bnd"
    unfolding sorted_iff_nth_mono using mono len by simp
  have b0: "bnd ! 0 = 0" using nth [of 0] assms by simp
  have bn: "bnd ! n = data_size" using nth [of n] by simp
  have cover: "\<exists>!i. i < n \<and> bnd ! i \<le> j \<and> j < bnd ! (i + 1)" if "j < data_size" for j
    using mono by (rule boundaries_cover) (use that b0 bn in simp_all)
  show ?thesis
  proof (intro exI [of _ bnd] conjI allI impI)
    fix j assume "j < data_size"
    then show "\<exists>!i. i < n \<and> bnd ! i \<le> j \<and> j < bnd ! (i + 1)" by (rule cover)
  qed (fact eq len srt b0 bn)+
qed

text \<open>Three workers on two elements: the first two ranges are empty, the last has both.\<close>

theorem partition_boundaries_witness:
  "(1::nat) \<le> 3 \<and> partition_bnd 3 2 = Inr [0, 0, 0, 2] \<and>
   (\<exists>bnd. partition_bnd 3 2 = Inr bnd \<and> length bnd = 3 + 1 \<and> sorted bnd \<and>
     bnd ! 0 = 0 \<and> bnd ! 3 = 2 \<and>
     (\<forall>j<2. \<exists>!i. i < 3 \<and> bnd ! i \<le> j \<and> j < bnd ! (i + 1)))"
proof -
  have h: "(1::nat) \<le> 3" by simp
  have e: "partition_bnd 3 2 = Inr [0, 0, 0, 2]" by code_simp
  show ?thesis using h e partition_boundaries [OF h, of 2] by simp
qed

text \<open>Without a worker the division \<^verbatim>\<open>data_size / n\<close> has a zero divisor.\<close>

lemma partition_bnd_no_worker: "partition_bnd 0 data_size = Inl DivisionByZero"
  by (simp add: partition_bnd_def)

section \<open>Inner products\<close>

lemma partition_bnd_mono:
  assumes "partition_bnd n ds = Inr bnd" "1 \<le> n" "i \<le> k" "k \<le> n"
  shows "bnd ! i \<le> bnd ! k"
proof -
  from partition_bnd_nth [OF assms(2), of ds] assms(1)
  have nth: "\<And>i. i \<le> n \<Longrightarrow> bnd ! i = (if i = n then ds else i * (ds div n))"
    by auto
  show ?thesis
    using assms(3,4) partition_step_le [of i n ds] by (simp add: nth mult_le_mono1)
qed

lemma partition_bnd_ends:
  assumes "partition_bnd n ds = Inr bnd" "1 \<le> n"
  shows "bnd ! 0 = 0" "bnd ! n = ds"
proof -
  from partition_bnd_nth [OF assms(2), of ds] assms(1)
  have nth: "\<And>i. i \<le> n \<Longrightarrow> bnd ! i = (if i = n then ds else i * (ds div n))"
    by auto
  show "bnd ! 0 = 0" using nth [of 0] assms(2) by simp
  show "bnd ! n = ds" using nth [of n] by simp
qed

lemma fold_add_sum_list:
  fixes a :: "'a::comm_monoid_add"
  shows "fold (\<lambda>i s. s + f i) xs a = a + sum_list (map f xs)"
  by (induction xs arbitrary: a) (simp_all add: add.assoc)

lemma fold_add_upt:
  fixes a :: "'a::comm_monoid_add"
  shows "fold (\<lambda>i s. s + f i) [l..<r] a = a + sum f {l..<r}"
  by (simp add: fold_add_sum_list interv_sum_list_conv_sum_set_nat)

lemma priv_innerProd_sum:
  "priv_innerProd v1 v2 result l r = result + (\<Sum>i = l..<r. v1 i * v2 i)"
  by (simp add: priv_innerProd_def fold_add_upt)

lemma priv_innerProdC_sum:
  "priv_innerProdC v1 v2 result l r = result + (\<Sum>i = l..<r. cnj (v1 i) * v2 i)"
  by (simp add: priv_innerProdC_def fold_add_upt)

lemma run_threads_add:
  fixes st :: "'a::comm_monoid_add"
  assumes "schedule_of nthreads sched"
  shows "run_threads sched (\<lambda>i st. st + g i) st = st + (\<Sum>i<nthreads. g i)"
proof -
  have "run_threads sched (\<lambda>i st. st + g i) st = st + sum_list (map g sched)"
    by (simp add: run_threads_def fold_add_sum_list)
  also have "sum_list (map g sched) = sum_mset (image_mset g (mset sched))"
    by (simp add: sum_mset_sum_list [symmetric])
  also have "mset sched = mset [0..<nthreads]"
    using assms by (simp add: schedule_of_def)
  also have "sum_mset (image_mset g (mset [0..<nthreads])) = sum_list (map g [0..<nthreads])"
    by (simp add: sum_mset_sum_list [symmetric])
  also have "\<dots> = (\<Sum>i<nthreads. g i)"
    by (simp add: interv_sum_list_conv_sum_set_nat atLeast0LessThan)
  finally show ?thesis .
qed

lemma sum_chunks:
  fixes f :: "nat \<Rightarrow> 'a::comm_monoid_add"
  assumes "\<And>i. i < n \<Longrightarrow> b i \<le> b (Suc i)"
  shows "(\<Sum>i<n. \<Sum>j = b i..<b (Suc i). f j) = (\<Sum>j = b 0..<b n. f j)"
  using assms
proof (induction n)
  case 0
  show ?case by simp
next
  case (Suc n)
  have mono: "b 0 \<le> b n"
  proof -
    have "k \<le> n \<Longrightarrow> b 0 \<le> b k" for k
    proof (induction k)
      case 0 show ?case by simp
    next
      case (Suc k)
      then show ?case using Suc.prems Suc.IH \<open>\<And>i. i < Suc n \<Longrightarrow> b i \<le> b (Suc i)\<close> [of k]
        by simp
    qed
    then show ?thesis by simp
  qed
  have "(\<Sum>i<Suc n. \<Sum>j = b i..<b (Suc i). f j)
      = (\<Sum>j = b 0..<b n. f j) + (\<Sum>j = b n..<b (Suc n). f j)"
    using Suc by simp
  also have "\<dots> = (\<Sum>j = b 0..<b (Suc n). f j)"
    using mono Suc.prems [of n] by (simp add: sum.atLeastLessThan_concat)
  finally show ?case .
qed

lemma threads_sum:
  fixes f :: "nat \<Rightarrow> complex"
  assumes bnd: "partition_bnd nthreads data_size = Inr bnd" and n: "1 \<le> nthreads"
    and sched: "schedule_of nthreads sched"
  shows "run_threads sched (\<lambda>i result. result + (\<Sum>j = bnd ! i..<bnd ! (i + 1). f j)) 0
           = (\<Sum>j<data_size. f j)"
proof -
  have "run_threads sched (\<lambda>i result. result + (\<Sum>j = bnd ! i..<bnd ! (i + 1). f j)) 0
      = (\<Sum>i<nthreads. \<Sum>j = bnd ! i..<bnd ! (Suc i). f j)"
    using run_threads_add [OF sched, of "\<lambda>i. \<Sum>j = bnd ! i..<bnd ! (i + 1). f j" 0] by simp
  also have "\<dots> = (\<Sum>j = bnd ! 0..<bnd ! nthreads. f j)"
    by (rule sum_chunks) (use partition_bnd_mono [OF bnd n] in simp)
  also have "\<dots> = (\<Sum>j<data_size. f j)"
    using partition_bnd_ends [OF bnd n] by (simp add: atLeast0LessThan)
  finally show ?thesis .
qed

lemma ConstMult_eq: "ConstMult a b = a * b"
  by (simp add: ConstMult_def complex_eq_iff)

lemma ConstMultConj_eq: "ConstMultConj a b = cnj a * b"
  by (simp add: ConstMultConj_def complex_eq_iff)

lemma inner_product_sum:
  "inner_product v1 data_size v2 0 ConstSum op2 = (\<Sum>i<data_size. op2 (v1 i) (v2 i))"
  using fold_add_upt [of "\<lambda>i. op2 (v1 i) (v2 i)" 0 data_size 0]
  by (simp add: inner_product_def ConstSum_def atLeast0LessThan)

lemma innerProd_sum:
  assumes "1 \<le> nthreads" "schedule_of nthreads sched"
  shows "innerProd sched v1 v2 data_size nthreads = Inr (\<Sum>i<data_size. v1 i * v2 i)"
proof (cases "data_size > DOTU_STD_CROSSOVER")
  case True
  then show ?thesis
    by (simp add: innerProd_def inner_product_sum ConstMult_eq)
next
  case False
  from partition_bnd_nth [OF assms(1), of data_size] obtain bnd where
    bnd: "partition_bnd nthreads data_size = Inr bnd" by blast
  show ?thesis
    using False threads_sum [OF bnd assms, of "\<lambda>i. v1 i * v2 i"]
    by (simp add: innerProd_def bnd priv_innerProd_sum)
qed

lemma innerProdC_sum:
  assumes "1 \<le> nthreads" "schedule_of nthreads sched"
  shows "innerProdC sched v1 v2 data_size nthreads = Inr (\<Sum>i<data_size. cnj (v1 i) * v2 i)"
proof (cases "data_size > DOTC_STD_CROSSOVER")
  case True
  then show ?thesis
    by (simp add: innerProdC_def inner_product_sum ConstMultConj_eq)
next
  case False
  from partition_bnd_nth [OF assms(1), of data_size] obtain bnd where
    bnd: "partition_bnd nthreads data_size = Inr bnd" by blast
  show ?thesis
    using False threads_sum [OF bnd assms, of "\<lambda>i. cnj (v1 i) * v2 i"]
    by (simp add: innerProdC_def bnd priv_innerProdC_sum)
qed

subsection \<open>The inner product in double precision\<close>

text \<open>The numbers \<open>10\<^sup>1\<^sup>6\<close>, 1, 2 and \<open>10\<^sup>1\<^sup>6 + 2\<close> as \<^verbatim>\<open>double\<close>, their products and their sums.\<close>

lemma double_of_int_values:
  "double_of_int 10000000000000000 = CDouble (Double 5000000000000000 1) (Double 0 0)"
  "double_of_int 1 = CDouble (Double 1 0) (Double 0 0)"
  by code_simp+

lemma double_products:
  "CDouble (Double 5000000000000000 1) (Double 0 0) * CDouble (Double 1 0) (Double 0 0)
     = CDouble (Double 5000000000000000 1) (Double 0 0)"
  "CDouble (Double 1 0) (Double 0 0) * CDouble (Double 1 0) (Double 0 0)
     = CDouble (Double 1 0) (Double 0 0)"
  by code_simp+

lemma double_sums:
  "0 + CDouble (Double 5000000000000000 1) (Double 0 0)
     = CDouble (Double 5000000000000000 1) (Double 0 0)"
  "0 + CDouble (Double 1 0) (Double 0 0) = CDouble (Double 1 0) (Double 0 0)"
  "CDouble (Double 5000000000000000 1) (Double 0 0) + CDouble (Double 1 0) (Double 0 0)
     = CDouble (Double 5000000000000000 1) (Double 0 0)"
  "CDouble (Double 1 0) (Double 0 0) + CDouble (Double 1 0) (Double 0 0)
     = CDouble (Double 2 0) (Double 0 0)"
  "CDouble (Double 5000000000000000 1) (Double 0 0) + CDouble (Double 2 0) (Double 0 0)
     = CDouble (Double 5000000000000001 1) (Double 0 0)"
  "CDouble (Double 2 0) (Double 0 0) + CDouble (Double 5000000000000000 1) (Double 0 0)
     = CDouble (Double 5000000000000001 1) (Double 0 0)"
  by code_simp+

lemma double_values:
  "cdouble_value (CDouble (Double 5000000000000000 1) (Double 0 0)) = (10000000000000000, 0)"
  "cdouble_value (CDouble (Double 5000000000000001 1) (Double 0 0)) = (10000000000000002, 0)"
  by (simp_all add: cdouble_value_def double_value_def)

lemma partition_small:
  "partition_bnd (Suc 0) 3 = Inr [0, 3]" "partition_bnd 2 3 = Inr [0, 1, 3]"
  "partition_bnd 3 3 = Inr [0, 1, 2, 3]"
  by code_simp+

lemma upt_small:
  "[0..<3] = [0, 1, 2]" "[Suc 0..<3] = [1, 2]" "[0..<Suc 0] = [0]" "[Suc 0..<2] = [1]"
  "[2..<3] = [2]"
  by (simp_all add: upt_rec)

lemma below_crossover: "\<not> 3 > DOTU_STD_CROSSOVER"
  by (simp add: DOTU_STD_CROSSOVER_def)

text \<open>
  Claim C5 says that \<^verbatim>\<open>innerProd\<close> returns exactly the direct sequential dot product, whatever
  \<open>nthreads\<close> is. In double precision the sum of \<open>10\<^sup>1\<^sup>6\<close> and 1 is \<open>10\<^sup>1\<^sup>6\<close>, and the sum of \<open>10\<^sup>1\<^sup>6\<close> and
  2 is \<open>10\<^sup>1\<^sup>6 + 2\<close>. On the vectors \<open>(10\<^sup>1\<^sup>6, 1, 1)\<close> and \<open>(1, 1, 1)\<close> the sequential loop of
  \<^verbatim>\<open>std::inner_product\<close> and \<^verbatim>\<open>innerProd\<close> with one thread return \<open>10\<^sup>1\<^sup>6\<close>; with two threads
  the second worker hands over the partial sum 2 and \<^verbatim>\<open>innerProd\<close> returns \<open>10\<^sup>1\<^sup>6 + 2\<close>.
\<close>

theorem innerProd_double_counterexample:
  "cdouble_value (inner_product_double
     ((!) [double_of_int 10000000000000000, double_of_int 1, double_of_int 1]) 3
     ((!) [double_of_int 1, double_of_int 1, double_of_int 1]) 0 ConstSum_double ConstMult_double)
     = (10000000000000000, 0) \<and>
   returned_value (innerProd_double [0]
     ((!) [double_of_int 10000000000000000, double_of_int 1, double_of_int 1])
     ((!) [double_of_int 1, double_of_int 1, double_of_int 1]) 3 1)
     = Some (10000000000000000, 0) \<and>
   returned_value (innerProd_double [0, 1]
     ((!) [double_of_int 10000000000000000, double_of_int 1, double_of_int 1])
     ((!) [double_of_int 1, double_of_int 1, double_of_int 1]) 3 2)
     = Some (10000000000000002, 0)"
  by (simp add: innerProd_double_def inner_product_double_def ConstSum_double_def
      ConstMult_double_def times_cdouble_def [symmetric] below_crossover partition_small
      run_threads_def priv_innerProd_double_def upt_small double_of_int_values double_products
      double_sums double_values returned_value_def Let_def)

text \<open>
  With three threads the value depends on the order in which the workers reach the critical
  section.
\<close>

lemma innerProd_double_schedules:
  "returned_value (innerProd_double [0, 1, 2]
     ((!) [double_of_int 10000000000000000, double_of_int 1, double_of_int 1])
     ((!) [double_of_int 1, double_of_int 1, double_of_int 1]) 3 3)
     = Some (10000000000000000, 0)"
  "returned_value (innerProd_double [1, 2, 0]
     ((!) [double_of_int 10000000000000000, double_of_int 1, double_of_int 1])
     ((!) [double_of_int 1, double_of_int 1, double_of_int 1]) 3 3)
     = Some (10000000000000002, 0)"
  by (simp_all add: innerProd_double_def below_crossover partition_small
      run_threads_def priv_innerProd_double_def upt_small double_of_int_values double_products
      double_sums double_values returned_value_def Let_def)

subsection \<open>The inner product in exact arithmetic\<close>

text \<open>
  Claim C5, amended. When every sum and every product of complex numbers is exact (the
  rounding of \<^verbatim>\<open>float\<close> and \<^verbatim>\<open>double\<close> left aside), then for every pair of vectors of
  \<open>data_size\<close> elements, every \<open>nthreads \<ge> 1\<close> and every order in which the workers reach the
  critical section, \<^verbatim>\<open>innerProd\<close> returns the sum of the products \<open>v1[i] * v2[i]\<close> and
  \<^verbatim>\<open>innerProdC\<close> the sum of the products \<open>conj(v1[i]) * v2[i]\<close>, on the branch of
  \<^verbatim>\<open>std::inner_product\<close> (more than \<open>2\<^sup>2\<^sup>0\<close> elements) as on the branch of the worker threads.
  In double precision the value depends on \<open>nthreads\<close> and on that order.
\<close>

theorem innerProd_direct:
  assumes "1 \<le> nthreads" and "schedule_of nthreads sched"
  shows "innerProd sched v1 v2 data_size nthreads = Inr (\<Sum>i<data_size. v1 i * v2 i) \<and>
         innerProdC sched v1 v2 data_size nthreads = Inr (\<Sum>i<data_size. cnj (v1 i) * v2 i)"
  using innerProd_sum [OF assms] innerProdC_sum [OF assms] by simp


lemma schedule_of_2: "schedule_of 2 [0, 1]" "schedule_of 2 [1, 0]"
  by (simp_all add: schedule_of_def numeral_2_eq_2)

theorem innerProd_direct_witness:
  "(1::nat) \<le> 2 \<and> schedule_of 2 [1, 0] \<and>
   innerProd [1, 0] ((!) [1, \<i>, 2]) ((!) [\<i>, \<i>, 1]) 3 2 = Inr (1 + \<i>) \<and>
   innerProdC [1, 0] ((!) [1, \<i>, 2]) ((!) [\<i>, \<i>, 1]) 3 2 = Inr (3 + \<i>)"
proof -
  have h1: "(1::nat) \<le> 2" by simp
  have h2: "schedule_of 2 [1, 0]" by (simp add: schedule_of_def numeral_2_eq_2)
  show ?thesis
    using h1 h2 innerProd_direct [OF h1 h2, of "(!) [1, \<i>, 2]" "(!) [\<i>, \<i>, 1]" 3]
    by (simp add: numeral_3_eq_3 lessThan_Suc)
qed

lemma sum_nth_conv:
  fixes f :: "'b \<Rightarrow> 'a::comm_monoid_add"
  shows "(\<Sum>i<length v. f (v ! i)) = (\<Sum>x\<leftarrow>v. f x)"
  using sum_list_sum_nth [of "map f v"] by (simp add: atLeast0LessThan)

lemma innerProd_vec_sum:
  assumes "schedule_of 2 sched"
  shows "innerProd_vec sched v1 v2 = Inr (\<Sum>i<length v1. v1 ! i * v2 ! i)"
  unfolding innerProd_vec_def by (rule innerProd_sum) (use assms in simp_all)

lemma innerProdC_vec_sum:
  assumes "schedule_of 2 sched"
  shows "innerProdC_vec sched v1 v2 = Inr (\<Sum>i<length v1. cnj (v1 ! i) * v2 ! i)"
  unfolding innerProdC_vec_def by (rule innerProdC_sum) (use assms in simp_all)

text \<open>
  Claim C1 says that \<^verbatim>\<open>innerProd(v, v)\<close> is the sum of the squared magnitudes of the entries
  of \<open>v\<close>. \<^verbatim>\<open>innerProd\<close> does not conjugate: on the vector with the single entry \<open>\<i>\<close> it
  returns \<open>\<i> * \<i> = - 1\<close>, and the squared magnitude of \<open>\<i>\<close> is 1.
\<close>

theorem innerProd_self_counterexample:
  "innerProd_vec [0, 1] [\<i>] [\<i>] \<noteq> Inr (complex_of_real (sum_sq_magnitudes [\<i>]))"
  using innerProd_vec_sum [OF schedule_of_2(1), of "[\<i>]" "[\<i>]"]
  by (simp add: sum_sq_magnitudes_def)

text \<open>
  Claim C1, amended. For every complex vector \<open>v\<close>, \<^verbatim>\<open>innerProdC(v, v)\<close>, which conjugates its
  first operand, equals the sum of the squared magnitudes of the entries of \<open>v\<close>;
  \<^verbatim>\<open>innerProd(v, v)\<close> equals the sum of the squares \<open>v[i] * v[i]\<close>.
\<close>

theorem innerProdC_self:
  assumes "schedule_of 2 sched"
  shows "innerProdC_vec sched v v = Inr (complex_of_real (sum_sq_magnitudes v)) \<and>
         innerProd_vec sched v v = Inr (\<Sum>x\<leftarrow>v. x * x)"
proof -
  have "(\<Sum>i<length v. cnj (v ! i) * v ! i) = (\<Sum>x\<leftarrow>v. cnj x * x)"
    by (rule sum_nth_conv)
  also have "\<dots> = (\<Sum>x\<leftarrow>v. complex_of_real ((cmod x)\<^sup>2))"
  proof -
    have "cnj x * x = complex_of_real ((cmod x)\<^sup>2)" for x
      using complex_norm_square [of x] by (simp add: mult.commute)
    then show ?thesis by simp
  qed
  also have "\<dots> = complex_of_real (sum_sq_magnitudes v)"
    unfolding sum_sq_magnitudes_def by (induction v) simp_all
  finally have c: "(\<Sum>i<length v. cnj (v ! i) * v ! i) = complex_of_real (sum_sq_magnitudes v)" .
  have u: "(\<Sum>i<length v. v ! i * v ! i) = (\<Sum>x\<leftarrow>v. x * x)"
    by (rule sum_nth_conv)
  show ?thesis
    using innerProdC_vec_sum [OF assms, of v v] innerProd_vec_sum [OF assms, of v v] c u
    by simp
qed

theorem innerProdC_self_witness:
  "schedule_of 2 [1, 0] \<and>
   innerProdC_vec [1, 0] [\<i>, 2] [\<i>, 2] = Inr 5 \<and> sum_sq_magnitudes [\<i>, 2] = 5 \<and>
   innerProd_vec [1, 0] [\<i>, 2] [\<i>, 2] = Inr 3"
proof -
  have h: "schedule_of 2 [1, 0]" by (simp add: schedule_of_def numeral_2_eq_2)
  have s: "sum_sq_magnitudes [\<i>, 2] = 5" by (simp add: sum_sq_magnitudes_def)
  show ?thesis using h s innerProdC_self [OF h, of "[\<i>, 2]"] by simp
qed

section \<open>Loops that update one cell per iteration\<close>

lemma fold_upd_other:
  assumes "x \<notin> idx ` set ps"
  shows "fold (\<lambda>p v. v(idx p := u p (v (idx p)))) ps v x = v x"
  using assms by (induction ps arbitrary: v) auto

lemma fold_upd_hit:
  assumes "distinct ps" and "inj_on idx (set ps)" and "p0 \<in> set ps"
  shows "fold (\<lambda>p v. v(idx p := u p (v (idx p)))) ps v (idx p0) = u p0 (v (idx p0))"
  using assms
proof (induction ps arbitrary: v)
  case Nil
  then show ?case by simp
next
  case (Cons p ps)
  show ?case
  proof (cases "p0 = p")
    case True
    have "idx p \<notin> idx ` set ps"
      using Cons.prems(1,2) by (auto simp: inj_on_def)
    then have "fold (\<lambda>p v. v(idx p := u p (v (idx p)))) ps (v(idx p := u p (v (idx p)))) (idx p)
                 = (v(idx p := u p (v (idx p)))) (idx p)"
      by (rule fold_upd_other)
    then show ?thesis
      unfolding True by (simp only: fold_simps fun_upd_same)
  next
    case False
    then have in_ps: "p0 \<in> set ps" using Cons.prems(3) by simp
    have ne: "idx p0 \<noteq> idx p"
      using False Cons.prems(2,3) by (auto simp: inj_on_def)
    have "fold (\<lambda>p v. v(idx p := u p (v (idx p)))) ps (v(idx p := u p (v (idx p)))) (idx p0)
            = u p0 ((v(idx p := u p (v (idx p)))) (idx p0))"
      using Cons.prems(1,2) in_ps by (intro Cons.IH) (auto simp: inj_on_def)
    also have "(v(idx p := u p (v (idx p)))) (idx p0) = v (idx p0)"
      using ne by (rule fun_upd_other)
    finally show ?thesis by (simp only: fold_simps)
  qed
qed

lemma fold_product:
  "fold (\<lambda>r. fold (\<lambda>c. F r c) cs) rs v = fold (\<lambda>(r, c). F r c) (List.product rs cs) v"
proof (induction rs arbitrary: v)
  case Nil
  show ?case by simp
next
  case (Cons r rs)
  have "fold (\<lambda>(r, c). F r c) (map (Pair r) cs) v = fold (F r) cs v"
    by (simp add: fold_map comp_def)
  then show ?case using Cons.IH by simp
qed

lemma fold_cell_add:
  fixes v :: "'b \<Rightarrow> 'a::comm_monoid_add"
  shows "fold (\<lambda>b v. v(x := v x + g b)) bs v = v(x := v x + sum_list (map g bs))"
  by (induction bs arbitrary: v) (simp_all add: add.assoc)

lemma fold_cell_add_upt:
  fixes g :: "nat \<Rightarrow> 'a::comm_monoid_add"
  shows "fold (\<lambda>b v. v(x := v x + g b)) [0..<k] = (\<lambda>v. v(x := v x + (\<Sum>b<k. g b)))"
  by (rule ext) (simp add: fold_cell_add interv_sum_list_conv_sum_set_nat atLeast0LessThan)

section \<open>The rows handled by the workers\<close>

lemma run_threads_rows:
  "run_threads sched (\<lambda>i. fold F [bnd ! i..<bnd ! Suc i]) out = fold F (thread_rows bnd sched) out"
  unfolding run_threads_def thread_rows_def
  by (induction sched arbitrary: out) simp_all

lemma mset_set_sum: "finite A \<Longrightarrow> mset_set A = (\<Sum>j\<in>A. {#j#})"
  by (induction rule: finite_induct) simp_all

lemma mset_upt_sum: "mset [a..<b] = (\<Sum>j = a..<b. {#j#})"
  by (simp only: mset_upt mset_set_sum [OF finite_atLeastLessThan])

lemma mset_thread_rows:
  assumes bnd: "partition_bnd nthreads m = Inr bnd" and n: "1 \<le> nthreads"
    and sched: "schedule_of nthreads sched"
  shows "mset (thread_rows bnd sched) = mset [0..<m]"
proof -
  let ?g = "\<lambda>i. mset [bnd ! i..<bnd ! (i + 1)]"
  have "mset (thread_rows bnd sched) = sum_list (map ?g sched)"
    unfolding thread_rows_def by (induction sched) simp_all
  also have "\<dots> = sum_mset (image_mset ?g (mset sched))"
    by (simp add: sum_mset_sum_list [symmetric])
  also have "mset sched = mset [0..<nthreads]"
    using sched by (simp add: schedule_of_def)
  also have "sum_mset (image_mset ?g (mset [0..<nthreads])) = sum_list (map ?g [0..<nthreads])"
    by (simp add: sum_mset_sum_list [symmetric])
  also have "\<dots> = (\<Sum>i<nthreads. ?g i)"
    by (simp add: interv_sum_list_conv_sum_set_nat atLeast0LessThan)
  also have "\<dots> = (\<Sum>i<nthreads. \<Sum>j = bnd ! i..<bnd ! (Suc i). {#j#})"
    by (simp add: mset_upt_sum)
  also have "\<dots> = (\<Sum>j = bnd ! 0..<bnd ! nthreads. {#j#})"
    by (rule sum_chunks) (use partition_bnd_mono [OF bnd n] in simp)
  also have "\<dots> = mset [0..<m]"
    using partition_bnd_ends [OF bnd n] by (simp add: mset_upt_sum)
  finally show ?thesis .
qed

lemma thread_rows_props:
  assumes "partition_bnd nthreads m = Inr bnd" and "1 \<le> nthreads"
    and "schedule_of nthreads sched"
  shows "distinct (thread_rows bnd sched)" and "set (thread_rows bnd sched) = {0..<m}"
proof -
  have ms: "mset (thread_rows bnd sched) = mset [0..<m]"
    using assms by (rule mset_thread_rows)
  show "distinct (thread_rows bnd sched)"
    using mset_eq_imp_distinct_iff [OF ms] by simp
  show "set (thread_rows bnd sched) = {0..<m}"
    using mset_eq_setD [OF ms] by simp
qed


section \<open>Matrix-vector product\<close>




text \<open>
  In the build with BLAS the call of \<^verbatim>\<open>cblas_zgemv\<close> has \<open>beta = 0\<close>: for \<open>1 \<le> n \<le> m\<close> every
  cell \<open>v_out[r]\<close> with \<open>r < m\<close> is overwritten, its previous value is lost. The matrix is
  read with the leading dimension \<open>m\<close>.
\<close>

lemma matrixVecProd_blas:
  assumes "0 < n" and "n \<le> m"
  shows "matrixVecProd True sched mat v_in (Some v_out) m n nthreads False =
           Inr (Some (\<lambda>r. if r < m then (\<Sum>c<n. mat (r * m + c) * v_in c) else v_out r))"
  using assms by (simp add: matrixVecProd_def cblas_gemv_def cong: if_cong)





section \<open>Matrix-matrix product\<close>

lemma cell_index_inj:
  fixes n :: nat
  assumes "c < n" "c' < n" "r * n + c = r' * n + c'"
  shows "r = r' \<and> c = c'"
proof -
  have "(r * n + c) div n = r" "(r * n + c) mod n = c" using assms(1) by simp_all
  moreover have "(r' * n + c') div n = r'" "(r' * n + c') mod n = c'" using assms(2) by simp_all
  ultimately show ?thesis using assms(3) by metis
qed

lemma fold_cells:
  fixes out :: "nat \<Rightarrow> 'a::comm_monoid_add"
  assumes d: "distinct rs" and s: "set rs = {0..<m}"
  shows "fold (\<lambda>r. fold (\<lambda>c v. v(r * n + c := v (r * n + c) + G r c)) [0..<n]) rs out
           = (\<lambda>x. if x < m * n then out x + G (x div n) (x mod n) else out x)"
proof
  fix x
  let ?ps = "List.product rs [0..<n]"
  let ?idx = "\<lambda>p. fst p * n + snd p"
  let ?u = "\<lambda>p y. y + G (fst p) (snd p)"
  have F: "(\<lambda>(r, c) v. v(r * n + c := v (r * n + c) + G r c))
             = (\<lambda>p v. v(?idx p := ?u p (v (?idx p))))"
    by (simp add: fun_eq_iff split: prod.splits)
  have eq: "fold (\<lambda>r. fold (\<lambda>c v. v(r * n + c := v (r * n + c) + G r c)) [0..<n]) rs out
              = fold (\<lambda>p v. v(?idx p := ?u p (v (?idx p)))) ?ps out"
    unfolding F [symmetric] by (rule fold_product)
  have dist: "distinct ?ps" using d by (simp add: distinct_product)
  have inj: "inj_on ?idx (set ?ps)"
    by (rule inj_onI) (auto dest: cell_index_inj)
  show "fold (\<lambda>r. fold (\<lambda>c v. v(r * n + c := v (r * n + c) + G r c)) [0..<n]) rs out x
          = (if x < m * n then out x + G (x div n) (x mod n) else out x)"
  proof (cases "x < m * n")
    case True
    then have n0: "0 < n" by (cases n) simp_all
    have r: "x div n < m" using True by (simp add: less_mult_imp_div_less)
    have mem: "(x div n, x mod n) \<in> set ?ps" using r n0 s by simp
    have "fold (\<lambda>p v. v(?idx p := ?u p (v (?idx p)))) ?ps out (?idx (x div n, x mod n))
            = ?u (x div n, x mod n) (out (?idx (x div n, x mod n)))"
      using dist inj mem by (rule fold_upd_hit)
    then show ?thesis using True eq by simp
  next
    case False
    have "x \<notin> ?idx ` set ?ps"
    proof
      assume "x \<in> ?idx ` set ?ps"
      then obtain r c where rc: "r < m" "c < n" "x = r * n + c" using s by auto
      have "r * n + c < r * n + n" using rc(2) by simp
      also have "\<dots> = Suc r * n" by simp
      also have "\<dots> \<le> m * n" using rc(1) by (intro mult_le_mono1) simp
      finally show False using False rc(3) by simp
    qed
    then have "fold (\<lambda>p v. v(?idx p := ?u p (v (?idx p)))) ?ps out x = out x"
      by (rule fold_upd_other)
    then show ?thesis using False eq by simp
  qed
qed

lemma priv_matrixMatProd_tp_cells:
  "priv_matrixMatProd_tp m_left m_right m_out m n k left right =
     fold (\<lambda>r. fold (\<lambda>c v. v(r * n + c := v (r * n + c) +
              (\<Sum>b<k. m_left (r * k + b) * m_right (c * n + b)))) [0..<n]) [left..<right] m_out"
  by (simp add: priv_matrixMatProd_tp_def fold_cell_add_upt)

lemma priv_matrixMatProd_cells:
  "priv_matrixMatProd m_left m_right m_out m n k left right =
     fold (\<lambda>r. fold (\<lambda>c v. v(r * n + c := v (r * n + c) +
              (\<Sum>b<k. m_left (r * k + b) * m_right (b * n + c)))) [0..<n]) [left..<right] m_out"
  by (simp add: priv_matrixMatProd_def fold_cell_add_upt)

lemma run_threads_cellwise:
  fixes out :: "nat \<Rightarrow> 'a::comm_monoid_add"
  assumes bnd: "partition_bnd nthreads m = Inr bnd" and n: "1 \<le> nthreads"
    and sched: "schedule_of nthreads sched"
  shows "run_threads sched
           (\<lambda>i. fold (\<lambda>r. fold (\<lambda>c v. v(r * n + c := v (r * n + c) + G r c)) [0..<n])
                  [bnd ! i..<bnd ! Suc i]) out
           = (\<lambda>x. if x < m * n then out x + G (x div n) (x mod n) else out x)"
  unfolding run_threads_rows
  by (rule fold_cells) (rule thread_rows_props [OF bnd n sched])+

text \<open>
  What \<^verbatim>\<open>matrixMatProd\<close> adds to the cell in row \<open>r\<close> and column \<open>c\<close> of the output: with
  \<^verbatim>\<open>transpose\<close> set, the sum of \<open>m_left[r * k + b] * m_right[b * n + c]\<close>; without it, the
  sum of \<open>m_left[r * k + b] * m_right[c * n + b]\<close>.
\<close>

lemma matrixMatProd_result:
  assumes "1 \<le> nthreads" and "schedule_of nthreads sched"
  shows "matrixMatProd sched m_left m_right (Some m_out) m n k nthreads tr =
           Inr (Some (\<lambda>x. if x < m * n
                           then m_out x +
                             (\<Sum>b<k. m_left (x div n * k + b) *
                                (if tr then m_right (b * n + x mod n) else m_right (x mod n * n + b)))
                           else m_out x))"
proof -
  from partition_bnd_nth [OF assms(1), of m] obtain bnd where
    bnd: "partition_bnd nthreads m = Inr bnd" by blast
  show ?thesis
    by (cases tr)
       (simp_all add: matrixMatProd_def bnd priv_matrixMatProd_cells priv_matrixMatProd_tp_cells
          run_threads_cellwise [OF bnd assms] cong: if_cong)
qed

lemma sum_below_2:
  fixes g :: "nat \<Rightarrow> 'a::comm_monoid_add"
  shows "(\<Sum>b<2. g b) = g 0 + g 1"
  by (simp add: numeral_2_eq_2)

lemma upt_0_4: "[0..<4] = [0, 1, 2, 3]"
  by (simp add: upt_rec)

text \<open>
  Claim C2 says that \<^verbatim>\<open>matrixMatProd\<close> without \<^verbatim>\<open>transpose\<close> adds to the cell in row \<open>r\<close> and
  column \<open>c\<close> the term of the matrix product, the sum of \<open>m_left[r * k + b] * m_right[b * n + c]\<close>.
  The branches of \<^verbatim>\<open>matrixMatProd\<close> are the other way round: without \<^verbatim>\<open>transpose\<close> it runs
  \<^verbatim>\<open>_matrixMatProd_tp\<close>, which reads \<open>m_right[c * n + b]\<close>. For the identity on the left and
  the matrix with rows \<open>(0, 1)\<close> and \<open>(0, 0)\<close> on the right, on a zeroed output, the code
  leaves the rows \<open>(0, 0)\<close> and \<open>(1, 0)\<close>; the product has the rows \<open>(0, 1)\<close> and \<open>(0, 0)\<close>.
\<close>

theorem matrixMatProd_no_transpose_example:
  "map_sum id (map_option (\<lambda>out. map out [0..<4]))
     (matrixMatProd [0] ((!) [1, 0, 0, 1]) ((!) [0, 1, 0, 0]) (Some (\<lambda>x. 0)) 2 2 2 1 False)
   = Inr (Some [0, 0, 1, 0]) \<and>
   map (\<lambda>x. \<Sum>b<2. [1, 0, 0, 1] ! (x div 2 * 2 + b) * [0, 1, 0, 0 :: complex] ! (b * 2 + x mod 2))
     [0..<4] = [0, 1, 0, 0]"
proof -
  have h1: "(1::nat) \<le> 1" by simp
  have h2: "schedule_of 1 [0]" by (simp add: schedule_of_def)
  show ?thesis
    using matrixMatProd_result [OF h1 h2, of "(!) [1, 0, 0, 1]" "(!) [0, 1, 0, 0]" "\<lambda>x. 0" 2 2 2 False]
    by (simp add: sum_below_2 upt_0_4)
qed


section \<open>Null output pointers\<close>

text \<open>
  Claim C7. For every input, \<^verbatim>\<open>matrixVecProd\<close> and \<^verbatim>\<open>matrixMatProd\<close> called with a null output
  pointer return normally, raise no error and write to no memory: the test of the pointer
  comes before everything else, also before the partition of the rows.
\<close>

theorem null_output_is_noop:
  "matrixVecProd USE_CBLAS sched mat v_in None m n nthreads transpose' = Inr None \<and>
   matrixMatProd sched' m_left m_right None m' n' k nthreads' transpose'' = Inr None"
  by (simp add: matrixVecProd_def matrixMatProd_def)

section \<open>Transpose\<close>

lemma transposed_index_inj:
  fixes m :: nat
  assumes "r < m" "r' < m" "s * m + r = s' * m + r'"
  shows "r = r' \<and> s = s'"
proof -
  have "(s * m + r) div m = s" "(s * m + r) mod m = r" using assms(1) by simp_all
  moreover have "(s' * m + r') div m = s'" "(s' * m + r') mod m = r'" using assms(2) by simp_all
  ultimately show ?thesis using assms(3) by metis
qed

lemma block_loops:
  assumes "m2 \<le> m"
  shows "fold (\<lambda>r. fold (\<lambda>s mat_t. mat_t(s * m + r := mat (r * n + s))) [n1..<n2]) [m1..<m2] mat_t
           = block_transposed mat mat_t m n m1 m2 n1 n2"
proof
  fix x
  let ?ps = "List.product [m1..<m2] [n1..<n2]"
  let ?idx = "\<lambda>p. snd p * m + fst p"
  let ?u = "\<lambda>p (y::complex). mat (fst p * n + snd p)"
  have F: "(\<lambda>(r, s) mat_t. mat_t(s * m + r := mat (r * n + s)))
             = (\<lambda>p v. v(?idx p := ?u p (v (?idx p))))"
    by (simp add: fun_eq_iff split: prod.splits)
  have eq: "fold (\<lambda>r. fold (\<lambda>s mat_t. mat_t(s * m + r := mat (r * n + s))) [n1..<n2]) [m1..<m2] mat_t
              = fold (\<lambda>p v. v(?idx p := ?u p (v (?idx p)))) ?ps mat_t"
    unfolding F [symmetric] by (rule fold_product)
  have dist: "distinct ?ps" by (simp add: distinct_product)
  have inj: "inj_on ?idx (set ?ps)"
  proof (rule inj_onI)
    fix p q assume "p \<in> set ?ps" "q \<in> set ?ps" "?idx p = ?idx q"
    then have "fst p = fst q \<and> snd p = snd q"
      using assms by (intro transposed_index_inj [of _ m]) auto
    then show "p = q" by (simp add: prod_eq_iff)
  qed
  show "fold (\<lambda>r. fold (\<lambda>s mat_t. mat_t(s * m + r := mat (r * n + s))) [n1..<n2]) [m1..<m2] mat_t x
          = block_transposed mat mat_t m n m1 m2 n1 n2 x"
  proof (cases "in_block m m1 m2 n1 n2 x")
    case True
    then have m0: "0 < m" using assms by (cases m) (simp_all add: in_block_def)
    have mem: "(x mod m, x div m) \<in> set ?ps" using True by (simp add: in_block_def)
    have "fold (\<lambda>p v. v(?idx p := ?u p (v (?idx p)))) ?ps mat_t (?idx (x mod m, x div m))
            = ?u (x mod m, x div m) (mat_t (?idx (x mod m, x div m)))"
      using dist inj mem by (rule fold_upd_hit)
    then show ?thesis using True eq by (simp add: block_transposed_def)
  next
    case False
    have "x \<notin> ?idx ` set ?ps"
    proof
      assume "x \<in> ?idx ` set ?ps"
      then obtain r s where rs: "m1 \<le> r" "r < m2" "n1 \<le> s" "s < n2" "x = s * m + r" by auto
      have "r < m" using rs(2) assms by simp
      then have "x mod m = r" "x div m = s" using rs(5) by simp_all
      then show False using False rs by (simp add: in_block_def)
    qed
    then have "fold (\<lambda>p v. v(?idx p := ?u p (v (?idx p)))) ?ps mat_t x = mat_t x"
      by (rule fold_upd_other)
    then show ?thesis using False eq by (simp add: block_transposed_def)
  qed
qed

lemma block_split_rows:
  assumes "m1 \<le> r2" "r2 \<le> m2"
  shows "block_transposed mat (block_transposed mat mat_t m n m1 r2 n1 n2) m n r2 m2 n1 n2
           = block_transposed mat mat_t m n m1 m2 n1 n2"
  using assms by (auto simp: block_transposed_def in_block_def fun_eq_iff)

lemma block_split_cols:
  assumes "n1 \<le> s2" "s2 \<le> n2"
  shows "block_transposed mat (block_transposed mat mat_t m n m1 m2 n1 s2) m n m1 m2 s2 n2
           = block_transposed mat mat_t m n m1 m2 n1 n2"
  using assms by (auto simp: block_transposed_def in_block_def fun_eq_iff)

lemma CFTranspose_block:
  assumes "m1 \<le> m2" "m2 \<le> m" "n1 \<le> n2"
  shows "CFTranspose mat mat_t m n m1 m2 n1 n2 = block_transposed mat mat_t m n m1 m2 n1 n2"
  using assms
proof (induction mat mat_t m n m1 m2 n1 n2 rule: CFTranspose.induct)
  case (1 mat mat_t m n m1 m2 n1 n2)
  let ?r2 = "(m1 + m2) div 2"
  let ?s2 = "(n1 + n2) div 2"
  have r2: "m1 \<le> ?r2" "?r2 \<le> m2" using "1.prems"(1) by simp_all
  have s2: "n1 \<le> ?s2" "?s2 \<le> n2" using "1.prems"(3) by simp_all
  have unfold: "CFTranspose mat mat_t m n m1 m2 n1 n2 =
      (if m2 - m1 \<ge> n2 - n1 \<and> m2 - m1 > BLOCK_THRESHOLD
       then CFTranspose mat (CFTranspose mat mat_t m n m1 ?r2 n1 n2) m n ?r2 m2 n1 n2
       else if n2 - n1 > BLOCK_THRESHOLD
       then CFTranspose mat (CFTranspose mat mat_t m n m1 m2 n1 ?s2) m n m1 m2 ?s2 n2
       else fold (\<lambda>r. fold (\<lambda>s mat_t. mat_t(s * m + r := mat (r * n + s))) [n1..<n2])
              [m1..<m2] mat_t)"
    by (subst CFTranspose.simps) (simp only: Let_def)
  consider (rows) "m2 - m1 \<ge> n2 - n1 \<and> m2 - m1 > BLOCK_THRESHOLD"
    | (cols) "\<not> (m2 - m1 \<ge> n2 - n1 \<and> m2 - m1 > BLOCK_THRESHOLD)" "n2 - n1 > BLOCK_THRESHOLD"
    | (leaf) "\<not> (m2 - m1 \<ge> n2 - n1 \<and> m2 - m1 > BLOCK_THRESHOLD)" "\<not> n2 - n1 > BLOCK_THRESHOLD"
    by blast
  then show ?case
  proof cases
    case rows
    have a: "CFTranspose mat mat_t m n m1 ?r2 n1 n2 = block_transposed mat mat_t m n m1 ?r2 n1 n2"
      using rows r2 "1.prems" by (intro "1.IH"(1)) auto
    have b: "CFTranspose mat (CFTranspose mat mat_t m n m1 ?r2 n1 n2) m n ?r2 m2 n1 n2
               = block_transposed mat (CFTranspose mat mat_t m n m1 ?r2 n1 n2) m n ?r2 m2 n1 n2"
      using rows r2 "1.prems" by (intro "1.IH"(2)) auto
    have "CFTranspose mat mat_t m n m1 m2 n1 n2
            = CFTranspose mat (CFTranspose mat mat_t m n m1 ?r2 n1 n2) m n ?r2 m2 n1 n2"
      by (simp only: unfold rows simp_thms if_True)
    then show ?thesis using a b block_split_rows [OF r2] by simp
  next
    case cols
    have a: "CFTranspose mat mat_t m n m1 m2 n1 ?s2 = block_transposed mat mat_t m n m1 m2 n1 ?s2"
      using cols s2 "1.prems" by (intro "1.IH"(3)) auto
    have b: "CFTranspose mat (CFTranspose mat mat_t m n m1 m2 n1 ?s2) m n m1 m2 ?s2 n2
               = block_transposed mat (CFTranspose mat mat_t m n m1 m2 n1 ?s2) m n m1 m2 ?s2 n2"
      using cols s2 "1.prems" by (intro "1.IH"(4)) auto
    have "CFTranspose mat mat_t m n m1 m2 n1 n2
            = CFTranspose mat (CFTranspose mat mat_t m n m1 m2 n1 ?s2) m n m1 m2 ?s2 n2"
      by (simp only: unfold cols if_False if_True)
    then show ?thesis using a b block_split_cols [OF s2] by simp
  next
    case leaf
    have "CFTranspose mat mat_t m n m1 m2 n1 n2
            = fold (\<lambda>r. fold (\<lambda>s mat_t. mat_t(s * m + r := mat (r * n + s))) [n1..<n2]) [m1..<m2] mat_t"
      by (simp only: unfold leaf if_False)
    then show ?thesis using block_loops [OF "1.prems"(2)] by simp
  qed
qed

lemma Transpose_block: "Transpose mat mat_t m n = block_transposed mat mat_t m n 0 m 0 n"
  unfolding Transpose_def by (rule CFTranspose_block) simp_all

lemma naive_transpose_block: "naive_transpose mat mat_t m n = block_transposed mat mat_t m n 0 m 0 n"
  unfolding naive_transpose_def by (rule block_loops) simp

text \<open>
  Claim C4. For every \<open>m \<times> n\<close> matrix \<open>mat\<close>, \<^verbatim>\<open>Transpose\<close> writes \<open>mat[r * n + s]\<close> to
  \<open>mat_t[s * m + r]\<close> for every \<open>r < m\<close> and \<open>s < n\<close>, and the output buffer of the recursive
  blocked routine with threshold 16 is the one of the naive double loop, for every \<open>m\<close> and
  \<open>n\<close>: zero, below the threshold, or not a multiple of it.
\<close>

theorem Transpose_naive:
  "Transpose mat mat_t m n = naive_transpose mat mat_t m n \<and>
   (\<forall>r<m. \<forall>s<n. Transpose mat mat_t m n (s * m + r) = mat (r * n + s))"
proof -
  have "Transpose mat mat_t m n (s * m + r) = mat (r * n + s)" if "r < m" "s < n" for r s
    using that by (simp add: Transpose_block block_transposed_def in_block_def)
  then show ?thesis by (simp add: Transpose_block naive_transpose_block)
qed


text \<open>A \<open>2 \<times> 3\<close> matrix: the entry of row 1 and column 2 goes to the cell \<open>2 * 2 + 1\<close>.\<close>

theorem Transpose_naive_witness:
  "(1::nat) < 2 \<and> (2::nat) < 3 \<and>
   Transpose ((!) [1, 2, 3, 4, 5, 6]) (\<lambda>x. 0) 2 3 (2 * 2 + 1) = 6 \<and>
   Transpose ((!) [1, 2, 3, 4, 5, 6]) (\<lambda>x. 0) 2 3 = naive_transpose ((!) [1, 2, 3, 4, 5, 6]) (\<lambda>x. 0) 2 3"
proof -
  have t: "\<forall>r<2. \<forall>s<3. Transpose ((!) [1, 2, 3, 4, 5, 6]) (\<lambda>x. 0) 2 3 (s * 2 + r)
             = [1, 2, 3, 4, 5, 6 :: complex] ! (r * 3 + s)"
    using Transpose_naive [of "(!) [1, 2, 3, 4, 5, 6]" "\<lambda>x. 0" 2 3] by blast
  have h1: "(1::nat) < 2" and h2: "(2::nat) < 3" by simp_all
  have "Transpose ((!) [1, 2, 3, 4, 5, 6]) (\<lambda>x. 0) 2 3 (2 * 2 + 1)
          = [1, 2, 3, 4, 5, 6 :: complex] ! (1 * 3 + 2)"
    using t [rule_format, OF h1 h2] .
  then show ?thesis
    using h1 h2 Transpose_naive [of "(!) [1, 2, 3, 4, 5, 6]" "\<lambda>x. 0" 2 3] by simp
qed


section \<open>dimSize\<close>

lemma sqrt_search_le: "sqrt_search s k \<le> k"
  by (induction k) auto

lemma sqrt_search_sq: "sqrt_search s k * sqrt_search s k \<le> s"
  by (induction k) auto

lemma sqrt_search_greatest: "j \<le> k \<Longrightarrow> j * j \<le> s \<Longrightarrow> j \<le> sqrt_search s k"
proof (induction k)
  case 0
  then show ?case by simp
next
  case (Suc k)
  show ?case
  proof (cases "j = Suc k")
    case True
    then show ?thesis using Suc.prems by simp
  next
    case False
    then have "j \<le> k" using Suc.prems by simp
    then have "j \<le> sqrt_search s k" using Suc.prems by (intro Suc.IH)
    moreover have "sqrt_search s k \<le> sqrt_search s (Suc k)"
      using sqrt_search_le [of s k] by simp
    ultimately show ?thesis by simp
  qed
qed

lemma floor_sqrt_square: "floor_sqrt (q * q) = q"
proof (rule antisym)
  have "q \<le> q * q" by (cases q) simp_all
  then show "q \<le> floor_sqrt (q * q)"
    unfolding floor_sqrt_def by (intro sqrt_search_greatest) simp_all
  have "floor_sqrt (q * q) * floor_sqrt (q * q) \<le> q * q"
    unfolding floor_sqrt_def by (rule sqrt_search_sq)
  then show "floor_sqrt (q * q) \<le> q"
    using power2_nat_le_eq_le [of "floor_sqrt (q * q)" q] by (simp add: power2_eq_square)
qed

lemma log2_pow2: "log2 (2 ^ k) = k"
proof (induction k)
  case 0
  show ?case by (subst log2.simps) simp
next
  case (Suc k)
  have "(2::nat) ^ Suc k \<ge> 2" by simp
  then have "log2 (2 ^ Suc k) = Suc (log2 (2 ^ Suc k div 2))"
    by (subst log2.simps) simp
  then show ?case using Suc by simp
qed

lemma pow2_and_pred: "and ((2::nat) ^ j) (2 ^ j - 1) = 0"
proof -
  have "and ((2::nat) ^ j) (2 ^ j - 1) = take_bit j ((2::nat) ^ j)"
    by (simp add: take_bit_eq_mask mask_eq_exp_minus_1)
  then show ?thesis by simp
qed

lemma and_pred_zero_pow2:
  fixes s :: nat
  assumes "0 < s" "and s (s - 1) = 0"
  shows "\<exists>j. s = 2 ^ j"
  using assms
proof (induction s rule: less_induct)
  case (less s)
  show ?case
  proof (cases "even s")
    case True
    then obtain t where t: "s = 2 * t" by (elim evenE)
    then have t0: "0 < t" using less.prems(1) by simp
    have "(s - 1) div 2 = t - 1" using t t0 by simp
    moreover have "s div 2 = t" using t by simp
    ultimately have "and s (s - 1) = 2 * and t (t - 1)"
      using True by (subst and_nat_rec) simp
    then have "and t (t - 1) = 0" using less.prems(2) by simp
    then obtain j where "t = 2 ^ j" using less.IH [of t] t t0 by auto
    then have "s = 2 ^ Suc j" using t by simp
    then show ?thesis by blast
  next
    case False
    then obtain t where t: "s = 2 * t + 1" by (elim oddE)
    have "and s (s - 1) = 2 * and t t"
      using t by (subst and_nat_rec) simp
    then have "t = 0" using less.prems(2) by simp
    then have "s = 2 ^ 0" using t by simp
    then show ?thesis by blast
  qed
qed

lemma square_pow2_even:
  fixes q :: nat
  shows "q * q = 2 ^ j \<Longrightarrow> \<exists>k. j = 2 * k \<and> q = 2 ^ k"
proof (induction j arbitrary: q rule: less_induct)
  case (less j)
  show ?case
  proof (cases "j = 0")
    case True
    then have "q = 1" using less.prems by simp
    then show ?thesis using True by simp
  next
    case False
    then obtain i where i: "j = Suc i" by (cases j) auto
    have "even (q * q)" using less.prems i by simp
    then have "even q" by simp
    then obtain p where p: "q = 2 * p" by (elim evenE)
    have "4 * (p * p) = 2 * 2 ^ i" using less.prems i p by simp
    then have pp: "2 * (p * p) = 2 ^ i" by simp
    have "i \<noteq> 0"
    proof
      assume "i = 0"
      then have "2 * (p * p) = 1" using pp by simp
      then show False by presburger
    qed
    then obtain h where h: "i = Suc h" by (cases i) auto
    have "p * p = 2 ^ h" using pp h by simp
    moreover have "h < j" using i h by simp
    ultimately obtain k where k: "h = 2 * k" "p = 2 ^ k" using less.IH by blast
    have "j = 2 * Suc k" "q = 2 ^ Suc k" using i h k p by simp_all
    then show ?thesis by blast
  qed
qed


lemma four_power: "(4::nat) ^ k = 2 ^ k * 2 ^ k"
proof -
  have "(4::nat) ^ k = (2 * 2) ^ k" by simp
  also have "\<dots> = 2 ^ k * 2 ^ k" by (rule power_mult_distrib)
  finally show ?thesis .
qed

lemma dimSize_unfold:
  "dimSize data =
     (if length data < 4 then Inl (InvalidArgument ''The dataset must be at least 2x2'')
      else if length data = 0 \<or> and (length data) (length data - 1) \<noteq> 0
        then Inl (InvalidArgument ''The dataset must be a power of 2'')
      else if floor_sqrt (length data) * floor_sqrt (length data) \<noteq> length data
        then Inl (InvalidArgument ''The dataset must be a perfect square'')
      else Inr (log2 (floor_sqrt (length data))))"
  by (simp only: dimSize_def Let_def)

lemma dimSize_power_of_4:
  assumes "1 \<le> k" and "length data = 4 ^ k"
  shows "dimSize data = Inr k"
proof -
  define s where "s = length data"
  have s: "s = 2 ^ k * 2 ^ k" using assms(2) by (simp add: four_power s_def)
  have s2: "s = 2 ^ (2 * k)" using s by (simp add: power_add mult_2)
  have "(4::nat) ^ 1 \<le> 4 ^ k" using assms(1) by (intro power_increasing) simp_all
  then have ge: "\<not> s < 4" using assms(2) by (simp add: s_def)
  then have nz: "s \<noteq> 0" by simp
  have pw: "and s (s - 1) = 0" unfolding s2 by (rule pow2_and_pred)
  have rt: "floor_sqrt s = 2 ^ k" unfolding s by (rule floor_sqrt_square)
  have sq: "floor_sqrt s * floor_sqrt s = s" using rt s by simp
  have "dimSize data = Inr (log2 (floor_sqrt s))"
    unfolding dimSize_unfold s_def [symmetric] using ge nz pw sq by simp
  then show ?thesis by (simp add: rt log2_pow2)
qed

lemma dimSize_returns:
  assumes "dimSize data = Inr d"
  shows "1 \<le> d \<and> length data = 4 ^ d"
proof -
  define s where "s = length data"
  have *: "(if s < 4 then Inl (InvalidArgument ''The dataset must be at least 2x2'')
      else if s = 0 \<or> and s (s - 1) \<noteq> 0
        then Inl (InvalidArgument ''The dataset must be a power of 2'')
      else if floor_sqrt s * floor_sqrt s \<noteq> s
        then Inl (InvalidArgument ''The dataset must be a perfect square'')
      else Inr (log2 (floor_sqrt s))) = Inr d"
    using assms unfolding dimSize_unfold s_def [symmetric] .
  have ge: "4 \<le> s" using * by (auto split: if_splits)
  have pw: "and s (s - 1) = 0" using * by (auto split: if_splits)
  have sq: "floor_sqrt s * floor_sqrt s = s" using * by (auto split: if_splits)
  have d: "d = log2 (floor_sqrt s)" using * by (auto split: if_splits)
  have "0 < s" using ge by simp
  then obtain j where j: "s = 2 ^ j"
    using and_pred_zero_pow2 [of s] pw by blast
  from sq j obtain k where k: "j = 2 * k" "floor_sqrt s = 2 ^ k"
    using square_pow2_even [of "floor_sqrt s" j] by auto
  have dk: "d = k" using d k(2) by (simp add: log2_pow2)
  have s4: "s = 4 ^ k" using j k(1) by (simp add: four_power power_add mult_2)
  have "k \<noteq> 0" using ge s4 by (cases k) simp_all
  then show ?thesis using dk s4 by (simp add: s_def)
qed

lemma dimSize_error: "dimSize data = Inl e \<Longrightarrow> \<exists>msg. e = InvalidArgument msg"
  unfolding dimSize_unfold by (auto split: if_splits)

text \<open>
  Claim C8. For every vector \<open>data\<close>, \<^verbatim>\<open>dimSize\<close> returns normally exactly when the size of
  \<open>data\<close> is \<open>4\<^sup>k\<close> for some \<open>k \<ge> 1\<close>, and then it returns \<open>k\<close>; for every other size (below 4,
  not a power of two, or an odd power of two such as 8) it throws \<^verbatim>\<open>std::invalid_argument\<close>.
\<close>

theorem dimSize_spec:
  "(\<forall>k. 1 \<le> k \<and> length data = 4 ^ k \<longrightarrow> dimSize data = Inr k) \<and>
   ((\<nexists>k. 1 \<le> k \<and> length data = 4 ^ k) \<longrightarrow> (\<exists>msg. dimSize data = Inl (InvalidArgument msg)))"
proof (intro conjI allI impI)
  fix k assume "1 \<le> k \<and> length data = 4 ^ k"
  then show "dimSize data = Inr k" by (simp add: dimSize_power_of_4)
next
  assume no: "\<nexists>k. 1 \<le> k \<and> length data = 4 ^ k"
  show "\<exists>msg. dimSize data = Inl (InvalidArgument msg)"
  proof (cases "dimSize data")
    case (Inl e)
    then show ?thesis using dimSize_error [OF Inl] by simp
  next
    case (Inr d)
    then show ?thesis using dimSize_returns [OF Inr] no by blast
  qed
qed

text \<open>The three checks of \<^verbatim>\<open>dimSize\<close>, each with a size that it refuses.\<close>

lemma dimSize_examples:
  "dimSize (replicate 2 x) = Inl (InvalidArgument ''The dataset must be at least 2x2'')"
  "dimSize (replicate 6 x) = Inl (InvalidArgument ''The dataset must be a power of 2'')"
  "dimSize (replicate 8 x) = Inl (InvalidArgument ''The dataset must be a perfect square'')"
  "dimSize (replicate 4 x) = Inr 1"
  "dimSize (replicate 16 x) = Inr 2"
  by code_simp+

lemma eight_no_power_of_4: "\<nexists>k. 1 \<le> k \<and> (8::nat) = 4 ^ k"
proof
  assume "\<exists>k. 1 \<le> k \<and> (8::nat) = 4 ^ k"
  then obtain k where k: "1 \<le> k" "(8::nat) = 4 ^ k" by blast
  show False
  proof (cases "k = 1")
    case True
    then show ?thesis using k(2) by simp
  next
    case False
    then have "2 \<le> k" using k(1) by simp
    then have "(4::nat) ^ 2 \<le> 4 ^ k" by (intro power_increasing) simp_all
    then show ?thesis using k(2) by simp
  qed
qed

text \<open>Sixteen elements are a gate on two wires; eight elements are refused.\<close>

theorem dimSize_spec_witness:
  "((1::nat) \<le> 2 \<and> length (replicate 16 (0::complex)) = 4 ^ 2 \<and>
    dimSize (replicate 16 (0::complex)) = Inr 2) \<and>
   ((\<nexists>k. 1 \<le> k \<and> length (replicate 8 (0::complex)) = 4 ^ k) \<and>
    (\<exists>msg. dimSize (replicate 8 (0::complex)) = Inl (InvalidArgument msg)))"
proof -
  have a: "(1::nat) \<le> 2 \<and> length (replicate 16 (0::complex)) = 4 ^ 2" by simp
  have b: "\<nexists>k. 1 \<le> k \<and> length (replicate 8 (0::complex)) = 4 ^ k"
    using eight_no_power_of_4 by simp
  have "dimSize (replicate 16 (0::complex)) = Inr 2"
    using dimSize_spec [of "replicate 16 (0::complex)"] a by blast
  moreover have "\<exists>msg. dimSize (replicate 8 (0::complex)) = Inl (InvalidArgument msg)"
    using dimSize_spec [of "replicate 8 (0::complex)"] b by blast
  ultimately show ?thesis using a b by blast
qed

end
